theory Spec2Isabelle
  imports Main "HOL-Library.Log_Nat"
begin

section \<open>Python strings\<close>

text \<open>
  A Python \<^verbatim>\<open>str\<close> is a sequence of Unicode code points, so a string is a list of
  natural numbers. \<open>str_lit\<close> turns an ASCII literal into such a list; the code points
  outside ASCII that the source uses are named below.
\<close>

type_synonym pystr = "nat list"

definition str_lit :: "string \<Rightarrow> pystr" where
  "str_lit cs = map of_char cs"

definition BACKSLASH :: nat where "BACKSLASH = 0x5C"
definition TIMES :: nat where "TIMES = 0xD7"            \<comment> \<open>U+00D7 MULTIPLICATION SIGN\<close>
definition DIVIDE :: nat where "DIVIDE = 0xF7"          \<comment> \<open>U+00F7 DIVISION SIGN\<close>
definition UMINUS :: nat where "UMINUS = 0x2212"        \<comment> \<open>U+2212 MINUS SIGN\<close>
definition SPACE :: nat where "SPACE = 0x20"
definition DOLLAR :: nat where "DOLLAR = 0x24"
definition PLUS :: nat where "PLUS = 0x2B"
definition COMMA :: nat where "COMMA = 0x2C"
definition HYPHEN :: nat where "HYPHEN = 0x2D"
definition DOT :: nat where "DOT = 0x2E"
definition SLASH :: nat where "SLASH = 0x2F"
definition EQUALS :: nat where "EQUALS = 0x3D"
definition LBRACE :: nat where "LBRACE = 0x7B"
definition RBRACE :: nat where "RBRACE = 0x7D"

lemmas char_defs = BACKSLASH_def TIMES_def DIVIDE_def UMINUS_def SPACE_def DOLLAR_def
  PLUS_def COMMA_def HYPHEN_def DOT_def SLASH_def EQUALS_def LBRACE_def RBRACE_def

text \<open>
  \<^verbatim>\<open>str.isspace\<close>, which is also what \<^verbatim>\<open>\s\<close> matches in a \<^verbatim>\<open>str\<close> pattern and what
  \<^verbatim>\<open>strip()\<close> without argument removes.
\<close>

definition is_space :: "nat \<Rightarrow> bool" where
  "is_space c \<longleftrightarrow>
     (0x09 \<le> c \<and> c \<le> 0x0D) \<or> (0x1C \<le> c \<and> c \<le> 0x20) \<or> c = 0x85 \<or> c = 0xA0 \<or>
     c = 0x1680 \<or> (0x2000 \<le> c \<and> c \<le> 0x200A) \<or> c = 0x2028 \<or> c = 0x2029 \<or>
     c = 0x202F \<or> c = 0x205F \<or> c = 0x3000"

text \<open>
  \<^verbatim>\<open>\d\<close> in a \<^verbatim>\<open>str\<close> pattern matches every character of the Unicode category Nd, and
  \<^verbatim>\<open>int()\<close> and \<^verbatim>\<open>float()\<close> read each of them as its digit. The characters of Nd come in
  runs of ten, zero to nine; \<open>nd_starts\<close> lists the zero of each run (Unicode 14.0, the
  database of CPython 3.11).
\<close>

definition nd_starts :: "nat list" where
  "nd_starts =
    [0x30, 0x660, 0x6F0, 0x7C0, 0x966, 0x9E6, 0xA66, 0xAE6, 0xB66, 0xBE6, 0xC66, 0xCE6,
     0xD66, 0xDE6, 0xE50, 0xED0, 0xF20, 0x1040, 0x1090, 0x17E0, 0x1810, 0x1946, 0x19D0,
     0x1A80, 0x1A90, 0x1B50, 0x1BB0, 0x1C40, 0x1C50, 0xA620, 0xA8D0, 0xA900, 0xA9D0,
     0xA9F0, 0xAA50, 0xABF0, 0xFF10, 0x104A0, 0x10D30, 0x11066, 0x110F0, 0x11136,
     0x111D0, 0x112F0, 0x11450, 0x114D0, 0x11650, 0x116C0, 0x11730, 0x118E0, 0x11950,
     0x11C50, 0x11D50, 0x11DA0, 0x16A60, 0x16AC0, 0x16B50, 0x1D7CE, 0x1D7D8, 0x1D7E2,
     0x1D7EC, 0x1D7F6, 0x1E140, 0x1E2F0, 0x1E950, 0x1FBF0]"

definition digit_value :: "nat \<Rightarrow> nat option" where
  "digit_value c =
     (case find (\<lambda>z. z \<le> c \<and> c < z + 10) nd_starts of
        None \<Rightarrow> None
      | Some z \<Rightarrow> Some (c - z))"

definition is_digit :: "nat \<Rightarrow> bool" where
  "is_digit c \<longleftrightarrow> digit_value c \<noteq> None"

subsection \<open>String methods\<close>

definition lstrip :: "pystr \<Rightarrow> pystr" where
  "lstrip s = dropWhile is_space s"

definition rstrip :: "pystr \<Rightarrow> pystr" where
  "rstrip s = rev (dropWhile is_space (rev s))"

definition strip :: "pystr \<Rightarrow> pystr" where
  "strip s = lstrip (rstrip s)"

text \<open>\<^verbatim>\<open>s.rstrip(chars)\<close>: every trailing character that is in \<open>chars\<close> goes.\<close>

definition rstrip_chars :: "pystr \<Rightarrow> pystr \<Rightarrow> pystr" where
  "rstrip_chars chars s = rev (dropWhile (\<lambda>c. c \<in> set chars) (rev s))"

text \<open>
  \<^verbatim>\<open>s.replace(old, new)\<close>: the occurrences of \<open>old\<close> are found from the left and do not
  overlap. (With an empty \<open>old\<close>, Python puts \<open>new\<close> before every character and at the
  end.)
\<close>

function replace :: "pystr \<Rightarrow> pystr \<Rightarrow> pystr \<Rightarrow> pystr" where
  "replace old new [] = (if old = [] then new else [])"
| "replace old new (c # cs) =
     (if old = [] then new @ c # replace old new cs
      else if take (length old) (c # cs) = old
           then new @ replace old new (drop (length old) (c # cs))
           else c # replace old new cs)"
  by pat_completeness auto
termination
  by (relation "measure (\<lambda>(old, new, s). length s)") auto

subsection \<open>The regular expressions of the source\<close>

text \<open>
  Each pattern of the source is written out as the matcher that Python's backtracking
  search amounts to on it. In all of them a greedy repetition over a character class is
  followed by a character outside that class (or by the end of the pattern), so giving
  characters back can never turn a failed match into a successful one: taking the longest
  run is the only way to match.
\<close>

text \<open>\<^verbatim>\<open>(-?\d+)\<close> at the start of \<open>s\<close>: the group and what follows it.\<close>

definition match_signed_digits :: "pystr \<Rightarrow> (pystr \<times> pystr) option" where
  "match_signed_digits s =
     (let (sign, r) = (case s of c # cs \<Rightarrow> if c = HYPHEN then ([c], cs) else ([], s) | [] \<Rightarrow> ([], s));
          ds = takeWhile is_digit r
      in if ds = [] then None else Some (sign @ ds, dropWhile is_digit r))"

text \<open>
  \<^verbatim>\<open>\\frac\{(-?\d+)\}\{(-?\d+)\}\<close> at the start of \<open>s\<close>: the two groups and what follows
  the match.
\<close>

definition match_frac :: "pystr \<Rightarrow> (pystr \<times> pystr \<times> pystr) option" where
  "match_frac s =
     (let open = BACKSLASH # str_lit ''frac{'' in
      if take (length open) s \<noteq> open then None
      else (case match_signed_digits (drop (length open) s) of
             None \<Rightarrow> None
           | Some (g1, r1) \<Rightarrow>
               if take 2 r1 \<noteq> [RBRACE, LBRACE] then None
               else (case match_signed_digits (drop 2 r1) of
                      None \<Rightarrow> None
                    | Some (g2, r2) \<Rightarrow>
                        (case r2 of
                           c # r3 \<Rightarrow> (if c = RBRACE then Some (g1, g2, r3) else None)
                         | [] \<Rightarrow> None))))"

lemma match_signed_digits_length:
  "match_signed_digits s = Some (g, r) \<Longrightarrow> length r \<le> length s"
  by (auto simp: match_signed_digits_def Let_def split: list.splits if_splits
      intro: le_trans [OF length_dropWhile_le] le_SucI)

lemma match_frac_length:
  "match_frac s = Some (g1, g2, r) \<Longrightarrow> length r < length s"
  unfolding match_frac_def Let_def
  by (auto split: option.splits if_splits list.splits dest!: match_signed_digits_length)

text \<open>\<^verbatim>\<open>re.sub(r'\\frac\{(-?\d+)\}\{(-?\d+)\}', r'\1/\2', s)\<close>\<close>

function re_sub_frac :: "pystr \<Rightarrow> pystr" where
  "re_sub_frac [] = []"
| "re_sub_frac (c # cs) =
     (case match_frac (c # cs) of
        Some (g1, g2, rest) \<Rightarrow> g1 @ SLASH # g2 @ re_sub_frac rest
      | None \<Rightarrow> c # re_sub_frac cs)"
  by pat_completeness auto
termination
  by (relation "measure length") (auto dest: match_frac_length)

text \<open>
  \<^verbatim>\<open>re.sub(r'\\[^\s]*', '', s)\<close>: a backslash goes together with the run of characters
  other than whitespace that follows it (further backslashes included).
\<close>

function re_sub_escape :: "pystr \<Rightarrow> pystr" where
  "re_sub_escape [] = []"
| "re_sub_escape (c # cs) =
     (if c = BACKSLASH then re_sub_escape (dropWhile (\<lambda>x. \<not> is_space x) cs)
      else c # re_sub_escape cs)"
  by pat_completeness auto
termination
  by (relation "measure length") (auto intro: le_imp_less_Suc length_dropWhile_le)

text \<open>\<^verbatim>\<open>re.sub(r'\s+', ' ', s)\<close>: every run of whitespace becomes one space.\<close>

function re_sub_spaces :: "pystr \<Rightarrow> pystr" where
  "re_sub_spaces [] = []"
| "re_sub_spaces (c # cs) =
     (if is_space c then SPACE # re_sub_spaces (dropWhile is_space cs)
      else c # re_sub_spaces cs)"
  by pat_completeness auto
termination
  by (relation "measure length") (auto intro: le_imp_less_Suc length_dropWhile_le)

section \<open>The normalizer\<close>

text \<open>
  \<^verbatim>\<open>sanitize_text\<close>, line by line. The argument is \<^verbatim>\<open>None\<close> or a string (on a string,
  \<^verbatim>\<open>str(s)\<close> returns it unchanged). In the source \<^verbatim>\<open>r'\times'\<close> is a backslash and
  \<^verbatim>\<open>times\<close>, and \<^verbatim>\<open>r'\\times'\<close> is two backslashes and \<^verbatim>\<open>times\<close>.
\<close>

definition sanitize_text :: "pystr option \<Rightarrow> pystr" where
  "sanitize_text s0 =
     (case s0 of
        None \<Rightarrow> []
      | Some s \<Rightarrow>
         (let s = strip s;
              s = replace [DOLLAR] [] s;
              s = re_sub_frac s;
              s = replace (BACKSLASH # BACKSLASH # str_lit ''times'') [TIMES]
                    (replace (BACKSLASH # str_lit ''times'') [TIMES] s);
              s = replace (BACKSLASH # BACKSLASH # str_lit ''div'') [DIVIDE]
                    (replace (BACKSLASH # str_lit ''div'') [DIVIDE] s);
              s = replace (BACKSLASH # str_lit ''cdot'') [TIMES] s;
              s = re_sub_escape s;
              s = strip (rstrip_chars [EQUALS] (rstrip s));
              s = replace [DIVIDE] [SPACE, DIVIDE, SPACE]
                    (replace [TIMES] [SPACE, TIMES, SPACE]
                      (replace [HYPHEN] [SPACE, HYPHEN, SPACE]
                        (replace [PLUS] [SPACE, PLUS, SPACE] s)))
          in strip (re_sub_spaces s)))"

section \<open>Facts about the string operations\<close>

lemma set_lstrip: "set (lstrip s) \<subseteq> set s"
  by (auto simp: lstrip_def dest: set_dropWhileD)

lemma set_rstrip: "set (rstrip s) \<subseteq> set s"
  by (auto simp: rstrip_def dest: set_dropWhileD)

lemma set_strip: "set (strip s) \<subseteq> set s"
  using set_lstrip set_rstrip by (fastforce simp: strip_def)

lemma set_rstrip_chars: "set (rstrip_chars cs s) \<subseteq> set s"
  by (auto simp: rstrip_chars_def dest: set_dropWhileD)

lemma set_replace: "old \<noteq> [] \<Longrightarrow> set (replace old new s) \<subseteq> set s \<union> set new"
proof (induction old new s rule: replace.induct)
  case (1 old new)
  then show ?case by simp
next
  case (2 old new c cs)
  have "set (drop (length old) (c # cs)) \<subseteq> set (c # cs)" by (rule set_drop_subset)
  with 2 show ?case by (auto simp del: drop_Suc_Cons)
qed

lemma set_re_sub_spaces: "set (re_sub_spaces s) \<subseteq> set s \<union> {SPACE}"
  by (induction s rule: re_sub_spaces.induct) (auto dest: set_dropWhileD)

lemma re_sub_escape_no_backslash: "BACKSLASH \<notin> set (re_sub_escape s)"
  by (induction s rule: re_sub_escape.induct) auto

text \<open>Where nothing can match, a substitution returns its argument.\<close>

lemma replace_absent:
  assumes "c \<in> set old" "c \<notin> set s"
  shows "replace old new s = s"
  using assms
proof (induction old new s rule: replace.induct)
  case (1 old new)
  then show ?case by auto
next
  case (2 old new x xs)
  have "take (length old) (x # xs) \<noteq> old"
  proof
    assume "take (length old) (x # xs) = old"
    then have "set old \<subseteq> set (x # xs)" by (metis set_take_subset)
    with 2 show False by auto
  qed
  with 2 show ?case by auto
qed

lemma match_frac_backslash: "match_frac s = Some r \<Longrightarrow> BACKSLASH \<in> set s"
proof -
  define n where "n = length (BACKSLASH # str_lit ''frac{'')"
  assume "match_frac s = Some r"
  then have "take n s = BACKSLASH # str_lit ''frac{''"
    unfolding match_frac_def Let_def n_def by (meson option.distinct(1))
  then have "BACKSLASH \<in> set (take n s)" by simp
  then show ?thesis by (rule in_set_takeD)
qed

lemma re_sub_frac_absent: "BACKSLASH \<notin> set s \<Longrightarrow> re_sub_frac s = s"
proof (induction s)
  case Nil
  then show ?case by simp
next
  case (Cons c cs)
  then have "match_frac (c # cs) = None"
    using match_frac_backslash [of "c # cs"] by (cases "match_frac (c # cs)") auto
  with Cons show ?case by simp
qed

lemma re_sub_escape_absent: "BACKSLASH \<notin> set s \<Longrightarrow> re_sub_escape s = s"
  by (induction s) auto

lemma rstrip_append_spaces: "\<forall>c\<in>set ws. is_space c \<Longrightarrow> rstrip (x @ ws) = rstrip x"
proof -
  assume "\<forall>c\<in>set ws. is_space c"
  then have "dropWhile is_space (rev ws @ rev x) = dropWhile is_space (rev x)"
    by (intro dropWhile_append2) simp
  then show ?thesis by (simp add: rstrip_def)
qed

lemma rstrip_id: "x = [] \<or> \<not> is_space (last x) \<Longrightarrow> rstrip x = x"
  by (cases x rule: rev_cases) (auto simp: rstrip_def)

lemma strip_id:
  assumes "a = [] \<or> (\<not> is_space (hd a) \<and> \<not> is_space (last a))"
  shows "strip a = a"
proof (cases a)
  case Nil
  then show ?thesis by (simp add: strip_def lstrip_def rstrip_def)
next
  case (Cons c cs)
  with assms have "rstrip a = a" by (intro rstrip_id) simp
  moreover have "lstrip a = a" using Cons assms by (simp add: lstrip_def)
  ultimately show ?thesis by (simp add: strip_def)
qed

lemma rstrip_chars_append: "set e \<subseteq> set cs \<Longrightarrow> rstrip_chars cs (x @ e) = rstrip_chars cs x"
proof -
  assume "set e \<subseteq> set cs"
  then have "dropWhile (\<lambda>c. c \<in> set cs) (rev e @ rev x) = dropWhile (\<lambda>c. c \<in> set cs) (rev x)"
    by (intro dropWhile_append2) auto
  then show ?thesis by (simp add: rstrip_chars_def)
qed

lemma rstrip_chars_id: "x = [] \<or> last x \<notin> set cs \<Longrightarrow> rstrip_chars cs x = x"
  by (cases x rule: rev_cases) (auto simp: rstrip_chars_def)

lemma lstrip_append: "\<exists>c\<in>set x. \<not> is_space c \<Longrightarrow> lstrip (x @ y) = lstrip x @ y"
  by (auto simp: lstrip_def dropWhile_append1)

lemma last_lstrip: "lstrip x \<noteq> [] \<Longrightarrow> last (lstrip x) = last x"
  unfolding lstrip_def
  by (metis append_Nil2 last_appendR takeWhile_dropWhile_id)

lemma rstrip_last: "rstrip x \<noteq> [] \<Longrightarrow> \<not> is_space (last (rstrip x))"
proof -
  assume "rstrip x \<noteq> []"
  then have ne: "dropWhile is_space (rev x) \<noteq> []" by (simp add: rstrip_def)
  then have "\<not> is_space (hd (dropWhile is_space (rev x)))" by (rule hd_dropWhile)
  with ne show ?thesis by (simp add: rstrip_def last_rev)
qed

lemma rstrip_decomp: "\<exists>ws. x = rstrip x @ ws \<and> (\<forall>c\<in>set ws. is_space c)"
proof -
  have "rev x = takeWhile is_space (rev x) @ dropWhile is_space (rev x)" by simp
  then have "x = rev (dropWhile is_space (rev x)) @ rev (takeWhile is_space (rev x))"
    by (metis rev_append rev_rev_ident)
  moreover have "\<forall>c\<in>set (rev (takeWhile is_space (rev x))). is_space c"
    by (auto dest: set_takeWhileD)
  ultimately show ?thesis unfolding rstrip_def by blast
qed


text \<open>Without backslash and dollar sign, lines 72 to 77 of the source change nothing.\<close>

lemma sanitize_text_plain:
  assumes "BACKSLASH \<notin> set s" "DOLLAR \<notin> set s"
  shows "sanitize_text (Some s) =
     strip (re_sub_spaces
       (replace [DIVIDE] [SPACE, DIVIDE, SPACE]
         (replace [TIMES] [SPACE, TIMES, SPACE]
           (replace [HYPHEN] [SPACE, HYPHEN, SPACE]
             (replace [PLUS] [SPACE, PLUS, SPACE]
               (strip (rstrip_chars [EQUALS] (rstrip (strip s)))))))))"
proof -
  have b: "BACKSLASH \<notin> set (strip s)" and d: "DOLLAR \<notin> set (strip s)"
    using assms set_strip by blast+
  have 1: "replace [DOLLAR] [] (strip s) = strip s"
    using d by (intro replace_absent [of DOLLAR]) simp_all
  have 2: "re_sub_frac (strip s) = strip s" using b by (rule re_sub_frac_absent)
  have 3: "replace (BACKSLASH # w) new (strip s) = strip s" for w new
    using b by (intro replace_absent [of BACKSLASH]) simp_all
  have 4: "re_sub_escape (strip s) = strip s" using b by (rule re_sub_escape_absent)
  show ?thesis
    by (simp add: sanitize_text_def Let_def 1 2 3 4)
qed

lemma not_space_EQUALS: "\<not> is_space EQUALS"
  by (simp add: is_space_def EQUALS_def)

lemma strip_all_space: "\<forall>c\<in>set s. is_space c \<Longrightarrow> strip s = []"
  by (metis append_Nil rstrip_append_spaces rstrip_def strip_def lstrip_def dropWhile.simps(1) rev.simps(1))

lemma step9_trailing_equals:
  assumes sp: "\<forall>c\<in>set ws. is_space c"
    and eq: "rstrip s = [] \<or> last (rstrip s) \<noteq> EQUALS"
  shows "strip (rstrip_chars [EQUALS] (rstrip (strip (s @ replicate n EQUALS @ ws)))) =
         strip (rstrip_chars [EQUALS] (rstrip (strip s)))"
proof (cases "rstrip s = []")
  case True
  obtain w2 where w2: "s = rstrip s @ w2" "\<forall>c\<in>set w2. is_space c"
    using rstrip_decomp by blast
  with True have alls: "\<forall>c\<in>set s. is_space c" by simp
  have s0: "strip s = []" using alls by (rule strip_all_space)
  have nil: "strip (rstrip_chars [EQUALS] (rstrip [])) = []"
    by (simp add: strip_def rstrip_chars_def rstrip_def lstrip_def)
  show ?thesis
  proof (cases n)
    case 0
    have "strip (s @ ws) = []" using alls sp by (intro strip_all_space) auto
    with 0 s0 show ?thesis by simp
  next
    case (Suc m)
    define e where "e = replicate n EQUALS"
    have ene: "e \<noteq> []" and elast: "last e = EQUALS" and ehd: "hd e = EQUALS"
      using Suc by (auto simp: e_def)
    have "rstrip (s @ e @ ws) = rstrip (s @ e)"
      using rstrip_append_spaces [OF sp, of "s @ e"] by simp
    also have "\<dots> = s @ e" using ene elast by (intro rstrip_id) (simp add: not_space_EQUALS)
    finally have "strip (s @ e @ ws) = lstrip (s @ e)" by (simp add: strip_def)
    also have "\<dots> = lstrip e" using alls by (simp add: lstrip_def dropWhile_append2)
    also have "\<dots> = e" using ene ehd by (cases e) (auto simp: lstrip_def not_space_EQUALS)
    finally have st: "strip (s @ e @ ws) = e" .
    have "rstrip e = e" using ene elast by (intro rstrip_id) (simp add: not_space_EQUALS)
    moreover have "rstrip_chars [EQUALS] e = []"
    proof -
      have "set e \<subseteq> set [EQUALS]" by (auto simp: e_def)
      from rstrip_chars_append [OF this, of "[]"] show ?thesis by (simp add: rstrip_chars_def)
    qed
    moreover have "strip [] = []" by (simp add: strip_def lstrip_def rstrip_def)
    ultimately have "strip (rstrip_chars [EQUALS] (rstrip (strip (s @ e @ ws)))) = []"
      by (simp only: st)
    with s0 nil show ?thesis by (simp add: e_def)
  qed
next
  case False
  obtain w2 where w2: "s = rstrip s @ w2" "\<forall>c\<in>set w2. is_space c"
    using rstrip_decomp by blast
  define r where "r = rstrip s"
  have rne: "r \<noteq> []" and rlast: "\<not> is_space (last r)" and req: "last r \<noteq> EQUALS"
    using False eq rstrip_last [of s] by (auto simp: r_def)
  have s: "s = r @ w2" using w2 by (simp add: r_def)
  have ex: "\<exists>c\<in>set r. \<not> is_space c" using rne rlast last_in_set by blast
  have rr: "rstrip r = r" using rlast by (intro rstrip_id) simp
  have lne: "lstrip r \<noteq> []"
    using ex by (auto simp: lstrip_def dropWhile_eq_Nil_conv)
  have llast: "last (lstrip r) = last r" using lne by (rule last_lstrip)
  have strip_s: "strip s = lstrip r"
    using rstrip_append_spaces [OF w2(2), of r] rr by (simp add: s strip_def)
  have rhs: "strip (rstrip_chars [EQUALS] (rstrip (strip s))) = lstrip r"
  proof -
    have "rstrip (lstrip r) = lstrip r" using llast rlast by (intro rstrip_id) simp
    moreover have "rstrip_chars [EQUALS] (lstrip r) = lstrip r"
      using llast req by (intro rstrip_chars_id) simp
    moreover have "strip (lstrip r) = lstrip r"
      using calculation(1) by (simp add: strip_def lstrip_def)
    ultimately show ?thesis by (simp add: strip_s)
  qed
  show ?thesis
  proof (cases n)
    case 0
    have "rstrip (s @ ws) = r"
      using rstrip_append_spaces [of "w2 @ ws" r] w2(2) sp rr by (auto simp: s)
    then have "strip (s @ ws) = lstrip r" by (simp add: strip_def)
    with 0 rhs strip_s show ?thesis by simp
  next
    case (Suc m)
    define e where "e = replicate n EQUALS"
    have ene: "e \<noteq> []" and elast: "last e = EQUALS" using Suc by (auto simp: e_def)
    have "rstrip (s @ e @ ws) = rstrip (s @ e)"
      using rstrip_append_spaces [OF sp, of "s @ e"] by simp
    also have "\<dots> = s @ e" using ene elast by (intro rstrip_id) (simp add: not_space_EQUALS)
    finally have "strip (s @ e @ ws) = lstrip (s @ e)" by (simp add: strip_def)
    also have "\<dots> = lstrip r @ w2 @ e"
      using lstrip_append [OF ex, of "w2 @ e"] by (simp add: s)
    finally have st: "strip (s @ e @ ws) = lstrip r @ w2 @ e" .
    have "rstrip (lstrip r @ w2 @ e) = lstrip r @ w2 @ e"
      using ene elast by (intro rstrip_id) (simp add: not_space_EQUALS)
    moreover have "rstrip_chars [EQUALS] (lstrip r @ w2 @ e) = rstrip_chars [EQUALS] (lstrip r @ w2)"
    proof -
      have "set e \<subseteq> set [EQUALS]" by (auto simp: e_def)
      from rstrip_chars_append [OF this, of "lstrip r @ w2"] show ?thesis by simp
    qed
    moreover have "rstrip_chars [EQUALS] (lstrip r @ w2) = lstrip r @ w2"
    proof (intro rstrip_chars_id disjI2)
      show "last (lstrip r @ w2) \<notin> set [EQUALS]"
      proof (cases "w2 = []")
        case True
        then show ?thesis using llast req lne by simp
      next
        case False
        then have "is_space (last w2)" using w2(2) last_in_set by blast
        then show ?thesis using False not_space_EQUALS by auto
      qed
    qed
    moreover have "strip (lstrip r @ w2) = lstrip r"
    proof -
      have "rstrip (lstrip r @ w2) = rstrip (lstrip r)" using w2(2) by (rule rstrip_append_spaces)
      also have "\<dots> = lstrip r" using llast rlast by (intro rstrip_id) simp
      finally show ?thesis by (simp add: strip_def lstrip_def)
    qed
    ultimately have "strip (rstrip_chars [EQUALS] (rstrip (strip (s @ e @ ws)))) = lstrip r"
      by (simp add: st)
    with rhs show ?thesis by (simp add: e_def)
  qed
qed


lemmas eval_defs = sanitize_text_def str_lit_def char_defs strip_def lstrip_def rstrip_def
  rstrip_chars_def is_space_def match_frac_def match_signed_digits_def is_digit_def
  digit_value_def nd_starts_def Let_def

section \<open>Claims about \<^verbatim>\<open>sanitize_text\<close>\<close>

text \<open>
  Claim C8. Whatever the raw text is (with or without a markup fraction), the output of
  \<open>sanitize_text\<close> contains no backslash: the catch-all removal of line 77 deletes every
  backslash that is left and nothing after it adds one. The rewriting of fractions and
  operators (lines 73 to 76) comes before that removal, so that the raw text
  \<^verbatim>\<open>\frac{1}{2} \times 4 =\<close> becomes \<^verbatim>\<open>1/2 x 4\<close> (with the multiplication sign for x).
\<close>

theorem sanitize_text_no_backslash:
  "BACKSLASH \<notin> set (sanitize_text s0) \<and>
   sanitize_text (Some (BACKSLASH # str_lit ''frac{1}{2} '' @ BACKSLASH # str_lit ''times 4 =''))
     = str_lit ''1/2 '' @ TIMES # str_lit '' 4''"
proof
  show "BACKSLASH \<notin> set (sanitize_text s0)"
  proof (cases s0)
    case None
    then show ?thesis by (simp add: sanitize_text_def)
  next
    case (Some s)
    define s8 where "s8 = re_sub_escape
      (replace (BACKSLASH # str_lit ''cdot'') [TIMES]
        (replace (BACKSLASH # BACKSLASH # str_lit ''div'') [DIVIDE]
          (replace (BACKSLASH # str_lit ''div'') [DIVIDE]
            (replace (BACKSLASH # BACKSLASH # str_lit ''times'') [TIMES]
              (replace (BACKSLASH # str_lit ''times'') [TIMES]
                (re_sub_frac (replace [DOLLAR] [] (strip s))))))))"
    define s9 where "s9 = strip (rstrip_chars [EQUALS] (rstrip s8))"
    define a where "a = replace [PLUS] [SPACE, PLUS, SPACE] s9"
    define b where "b = replace [HYPHEN] [SPACE, HYPHEN, SPACE] a"
    define c where "c = replace [TIMES] [SPACE, TIMES, SPACE] b"
    define s10 where "s10 = replace [DIVIDE] [SPACE, DIVIDE, SPACE] c"
    have out: "sanitize_text s0 = strip (re_sub_spaces s10)"
      by (simp add: Some sanitize_text_def s8_def s9_def s10_def a_def b_def c_def Let_def)
    have 8: "BACKSLASH \<notin> set s8" unfolding s8_def by (rule re_sub_escape_no_backslash)
    have 9: "set s9 \<subseteq> set s8"
      unfolding s9_def using set_strip set_rstrip_chars set_rstrip by fast
    have "set a \<subseteq> set s9 \<union> set [SPACE, PLUS, SPACE]"
      unfolding a_def by (rule set_replace) simp
    moreover have "set b \<subseteq> set a \<union> set [SPACE, HYPHEN, SPACE]"
      unfolding b_def by (rule set_replace) simp
    moreover have "set c \<subseteq> set b \<union> set [SPACE, TIMES, SPACE]"
      unfolding c_def by (rule set_replace) simp
    moreover have "set s10 \<subseteq> set c \<union> set [SPACE, DIVIDE, SPACE]"
      unfolding s10_def by (rule set_replace) simp
    ultimately have 10: "set s10 \<subseteq> set s9 \<union> {SPACE, PLUS, HYPHEN, TIMES, DIVIDE}" by auto
    have 11: "set (sanitize_text s0) \<subseteq> set s10 \<union> {SPACE}"
      unfolding out using set_strip set_re_sub_spaces by fast
    have "BACKSLASH \<notin> {SPACE, PLUS, HYPHEN, TIMES, DIVIDE}" by (simp add: char_defs)
    with 8 9 10 11 show ?thesis by blast
  qed
next
  show "sanitize_text (Some (BACKSLASH # str_lit ''frac{1}{2} '' @ BACKSLASH # str_lit ''times 4 =''))
     = str_lit ''1/2 '' @ TIMES # str_lit '' 4''"
    by (simp add: eval_defs)
qed

text \<open>
  Claim C4, as stated: of two trailing equals signs exactly one is removed, so that
  \<^verbatim>\<open>"x =="\<close> would become \<^verbatim>\<open>"x ="\<close>. The code removes both: \<^verbatim>\<open>rstrip('=')\<close> strips
  every trailing equals sign.
\<close>

theorem sanitize_text_double_equals_counterexample:
  "sanitize_text (Some (str_lit ''x =='')) = str_lit ''x'' \<and>
   sanitize_text (Some (str_lit ''x =='')) \<noteq> str_lit ''x =''"
  by (simp add: eval_defs)

text \<open>
  Claim C4, amended. Line 78 strips trailing whitespace, then every trailing equals sign,
  then whitespace at both ends: any number \<open>n\<close> of equals signs at the end of the raw text
  (followed by any whitespace \<open>ws\<close>) disappears. This is stated for a text \<open>s\<close> without
  backslash and dollar sign that does not itself end in an equals sign followed by
  whitespace.
\<close>

theorem sanitize_text_trailing_equals:
  assumes "BACKSLASH \<notin> set s" and "DOLLAR \<notin> set s"
    and "rstrip s = [] \<or> last (rstrip s) \<noteq> EQUALS"
    and "\<forall>c\<in>set ws. is_space c"
  shows "sanitize_text (Some (s @ replicate n EQUALS @ ws)) = sanitize_text (Some s)"
proof -
  have sp: "BACKSLASH \<noteq> c \<and> DOLLAR \<noteq> c" if "is_space c" for c
    using that by (auto simp: is_space_def char_defs)
  have "BACKSLASH \<notin> set (s @ replicate n EQUALS @ ws)"
    and "DOLLAR \<notin> set (s @ replicate n EQUALS @ ws)"
    using assms sp by (auto simp: char_defs)
  then show ?thesis
    using step9_trailing_equals [OF assms(4) assms(3), of n] assms(1,2)
    by (simp add: sanitize_text_plain)
qed

theorem sanitize_text_trailing_equals_witness:
  "BACKSLASH \<notin> set (str_lit ''x '') \<and> DOLLAR \<notin> set (str_lit ''x '') \<and>
   (rstrip (str_lit ''x '') = [] \<or> last (rstrip (str_lit ''x '')) \<noteq> EQUALS) \<and>
   sanitize_text (Some (str_lit ''x '' @ replicate 2 EQUALS @ [])) = sanitize_text (Some (str_lit ''x '')) \<and>
   sanitize_text (Some (str_lit ''x '')) = str_lit ''x''"
  using sanitize_text_trailing_equals [of "str_lit ''x ''" "[]" 2]
  by (simp add: eval_defs)


section \<open>The shape of a sanitized text\<close>

definition is_operator :: "nat \<Rightarrow> bool" where
  "is_operator c \<longleftrightarrow> c = PLUS \<or> c = HYPHEN \<or> c = TIMES \<or> c = DIVIDE"

text \<open>What line 79 amounts to: a space on each side of every operator glyph.\<close>

definition spaced :: "pystr \<Rightarrow> pystr" where
  "spaced s = concat (map (\<lambda>c. if is_operator c then [SPACE, c, SPACE] else [c]) s)"

lemma replace_single: "replace [c] new s = concat (map (\<lambda>x. if x = c then new else [x]) s)"
  by (induction s) auto

lemma replace_operators:
  "replace [DIVIDE] [SPACE, DIVIDE, SPACE]
     (replace [TIMES] [SPACE, TIMES, SPACE]
       (replace [HYPHEN] [SPACE, HYPHEN, SPACE]
         (replace [PLUS] [SPACE, PLUS, SPACE] s))) = spaced s"
  unfolding replace_single spaced_def
  by (induction s) (auto simp: is_operator_def char_defs)

lemma spaced_append: "spaced (a @ b) = spaced a @ spaced b"
  by (simp add: spaced_def)

lemma not_space_operator: "is_operator c \<Longrightarrow> \<not> is_space c"
  by (auto simp: is_operator_def is_space_def char_defs)

lemma is_space_SPACE: "is_space SPACE"
  by (simp add: is_space_def SPACE_def)

lemma not_operator_SPACE: "\<not> is_operator SPACE"
  by (simp add: is_operator_def char_defs)

text \<open>The words of a string: its maximal runs of characters other than whitespace.\<close>

function pywords :: "pystr \<Rightarrow> pystr list" where
  "pywords s =
     (case dropWhile is_space s of
        [] \<Rightarrow> []
      | c # cs \<Rightarrow> (c # takeWhile (\<lambda>x. \<not> is_space x) cs) # pywords (dropWhile (\<lambda>x. \<not> is_space x) cs))"
  by pat_completeness auto
termination
proof (relation "measure length")
  fix s c cs
  assume a: "dropWhile is_space s = c # cs"
  have "length (dropWhile (\<lambda>x. \<not> is_space x) cs) \<le> length cs" by (rule length_dropWhile_le)
  moreover have "length (c # cs) \<le> length s" using a length_dropWhile_le [of is_space s] by simp
  ultimately show "(dropWhile (\<lambda>x. \<not> is_space x) cs, s) \<in> measure length" by simp
qed simp

declare pywords.simps [simp del]

text \<open>Joining words with single spaces.\<close>

fun join_spaces :: "pystr list \<Rightarrow> pystr" where
  "join_spaces [] = []"
| "join_spaces [w] = w"
| "join_spaces (w # v # ws) = w @ SPACE # join_spaces (v # ws)"

lemma pywords_Nil [simp]: "pywords [] = []"
  by (simp add: pywords.simps)

lemma pywords_space: "is_space c \<Longrightarrow> pywords (c # s) = pywords s"
  by (simp add: pywords.simps [of "c # s"] pywords.simps [of s])

lemma pywords_char:
  "\<not> is_space c \<Longrightarrow>
   pywords (c # s) = (c # takeWhile (\<lambda>x. \<not> is_space x) s) # pywords (dropWhile (\<lambda>x. \<not> is_space x) s)"
  by (simp add: pywords.simps [of "c # s"])

lemma pywords_spaces: "\<forall>c\<in>set ws. is_space c \<Longrightarrow> pywords (ws @ s) = pywords s"
  by (induction ws) (simp_all add: pywords_space)

lemma pywords_word:
  assumes "w \<noteq> []" "\<forall>c\<in>set w. \<not> is_space c" "s = [] \<or> is_space (hd s)"
  shows "pywords (w @ s) = w # pywords s"
proof -
  obtain c cs where w: "w = c # cs" using assms(1) by (cases w) auto
  have tw: "takeWhile (\<lambda>x. \<not> is_space x) (cs @ s) = cs"
    and dw: "dropWhile (\<lambda>x. \<not> is_space x) (cs @ s) = s"
    using assms(2,3) by (cases s; simp add: w takeWhile_append2 dropWhile_append2)+
  show ?thesis using assms(2) by (simp add: w pywords_char tw dw)
qed


lemma pywords_dropWhile: "pywords (dropWhile is_space s) = pywords s"
  by (induction s) (simp_all add: pywords_space)

lemma pywords_tokens:
  "t \<in> set (pywords s) \<Longrightarrow> t \<noteq> [] \<and> (\<forall>c\<in>set t. \<not> is_space c)"
proof (induction s arbitrary: t rule: length_induct)
  case (1 s)
  note IH = "1.IH" and prem = "1.prems"
  show ?case
  proof (cases s)
    case Nil
    with prem show ?thesis by simp
  next
    case (Cons c cs)
    show ?thesis
    proof (cases "is_space c")
      case True
      then have "pywords s = pywords cs" by (simp add: Cons pywords_space)
      moreover have "length cs < length s" by (simp add: Cons)
      ultimately show ?thesis using IH prem by metis
    next
      case False
      define r where "r = dropWhile (\<lambda>x. \<not> is_space x) cs"
      have p: "pywords s = (c # takeWhile (\<lambda>x. \<not> is_space x) cs) # pywords r"
        using False by (simp add: Cons pywords_char r_def)
      have "length r \<le> length cs" unfolding r_def by (rule length_dropWhile_le)
      then have len: "length r < length s" by (simp add: Cons)
      from prem p consider (a) "t = c # takeWhile (\<lambda>x. \<not> is_space x) cs" | (b) "t \<in> set (pywords r)"
        by auto
      then show ?thesis
      proof cases
        case a
        then show ?thesis using False by (auto dest: set_takeWhileD)
      next
        case b
        with IH len show ?thesis by metis
      qed
    qed
  qed
qed

lemma join_spaces_Cons: "ws \<noteq> [] \<Longrightarrow> join_spaces (w # ws) = w @ SPACE # join_spaces ws"
  by (cases ws) simp_all

lemma rstrip_append_nonspace:
  assumes "\<exists>c\<in>set y. \<not> is_space c"
  shows "rstrip (x @ y) = x @ rstrip y"
proof -
  from assms obtain c where "c \<in> set (rev y)" "\<not> is_space c" by auto
  then have "dropWhile is_space (rev y @ rev x) = dropWhile is_space (rev y) @ rev x"
    by (rule dropWhile_append1)
  then show ?thesis by (simp add: rstrip_def)
qed

lemma re_sub_spaces_word:
  "\<forall>c\<in>set w. \<not> is_space c \<Longrightarrow> re_sub_spaces (w @ s) = w @ re_sub_spaces s"
  by (induction w) simp_all

lemma strip_space_Cons:
  assumes "is_space c"
  shows "strip (c # x) = strip x"
proof (cases "\<forall>d\<in>set x. is_space d")
  case True
  then have "\<forall>d\<in>set (c # x). is_space d" using assms by simp
  then have "strip (c # x) = []" by (rule strip_all_space)
  moreover have "strip x = []" using True by (rule strip_all_space)
  ultimately show ?thesis by simp
next
  case False
  then have "rstrip ([c] @ x) = [c] @ rstrip x" by (intro rstrip_append_nonspace) simp
  then show ?thesis using assms by (simp add: strip_def lstrip_def)
qed

lemma lstrip_id: "x = [] \<or> \<not> is_space (hd x) \<Longrightarrow> lstrip x = x"
  by (cases x) (simp_all add: lstrip_def)

lemma join_spaces_hd:
  assumes "\<forall>t\<in>set toks. t \<noteq> [] \<and> (\<forall>c\<in>set t. \<not> is_space c)"
  shows "join_spaces toks = [] \<or> \<not> is_space (hd (join_spaces toks))"
proof (cases toks)
  case Nil
  then show ?thesis by simp
next
  case (Cons w ws)
  then have w: "w \<noteq> []" "\<not> is_space (hd w)" using assms by (auto simp: hd_in_set)
  then have "hd (join_spaces toks) = hd w"
    by (cases ws) (simp_all add: Cons)
  then show ?thesis using w by simp
qed

lemma rstrip_re_sub_spaces:
  "s = [] \<or> \<not> is_space (hd s) \<Longrightarrow> rstrip (re_sub_spaces s) = join_spaces (pywords s)"
proof (induction s rule: length_induct)
  case (1 s)
  note IH = "1.IH" and prem = "1.prems"
  show ?case
  proof (cases s)
    case Nil
    then show ?thesis by (simp add: rstrip_def)
  next
    case (Cons c cs)
    then have c: "\<not> is_space c" using prem by simp
    define w where "w = c # takeWhile (\<lambda>x. \<not> is_space x) cs"
    define r where "r = dropWhile (\<lambda>x. \<not> is_space x) cs"
    have s: "s = w @ r" by (simp add: Cons w_def r_def)
    have w: "\<forall>x\<in>set w. \<not> is_space x" using c by (auto simp: w_def dest: set_takeWhileD)
    have wne: "w \<noteq> []" by (simp add: w_def)
    then have lw: "\<not> is_space (last w)" using w by (meson last_in_set)
    have rs: "re_sub_spaces s = w @ re_sub_spaces r" unfolding s using w by (rule re_sub_spaces_word)
    have pw: "pywords s = w # pywords r" using c by (simp add: Cons pywords_char w_def r_def)
    have lr: "length r \<le> length cs" unfolding r_def by (rule length_dropWhile_le)
    show ?thesis
    proof (cases r)
      case Nil
      then show ?thesis using lw by (simp add: rs pw rstrip_id)
    next
      case (Cons d ds)
      have "\<not> \<not> is_space (hd r)" unfolding r_def by (rule hd_dropWhile) (use Cons r_def in simp)
      then have d: "is_space d" by (simp add: Cons)
      define r' where "r' = dropWhile is_space ds"
      have rr: "re_sub_spaces r = SPACE # re_sub_spaces r'" using d by (simp add: Cons r'_def)
      have pr: "pywords r = pywords r'"
        using d by (simp add: Cons pywords_space r'_def pywords_dropWhile)
      have "length r' \<le> length ds" unfolding r'_def by (rule length_dropWhile_le)
      then have len: "length r' < length s" using lr by (simp add: Cons \<open>s = c # cs\<close>)
      have hd': "r' = [] \<or> \<not> is_space (hd r')"
        unfolding r'_def using hd_dropWhile [of is_space ds] by blast
      from IH len hd' have ih: "rstrip (re_sub_spaces r') = join_spaces (pywords r')" by blast
      show ?thesis
      proof (cases r')
        case Nil
        have "rstrip (w @ [SPACE]) = rstrip w"
          by (rule rstrip_append_spaces) (simp add: is_space_SPACE)
        then show ?thesis using lw by (simp add: rs rr pw pr Nil rstrip_id)
      next
        case (Cons e es)
        then have e: "\<not> is_space e" using hd' by simp
        then have ne: "\<exists>x\<in>set (re_sub_spaces r'). \<not> is_space x" by (auto simp: Cons)
        then have "\<exists>x\<in>set (SPACE # re_sub_spaces r'). \<not> is_space x" by auto
        then have "rstrip (w @ SPACE # re_sub_spaces r') = w @ rstrip (SPACE # re_sub_spaces r')"
          by (rule rstrip_append_nonspace)
        moreover have "rstrip ([SPACE] @ re_sub_spaces r') = [SPACE] @ rstrip (re_sub_spaces r')"
          using ne by (rule rstrip_append_nonspace)
        moreover have "pywords r' \<noteq> []" using e by (simp add: Cons pywords_char)
        ultimately show ?thesis by (simp add: rs rr pw pr ih join_spaces_Cons)
      qed
    qed
  qed
qed

text \<open>Line 80 of the source: the words of the string, joined by single spaces.\<close>

lemma normalize_words: "strip (re_sub_spaces s) = join_spaces (pywords s)"
proof -
  define s' where "s' = dropWhile is_space s"
  have a: "strip (re_sub_spaces s) = strip (re_sub_spaces s')"
  proof (cases s)
    case Nil
    then show ?thesis by (simp add: s'_def)
  next
    case (Cons c cs)
    show ?thesis
    proof (cases "is_space c")
      case True
      then show ?thesis by (simp add: Cons s'_def strip_space_Cons is_space_SPACE)
    next
      case False
      then show ?thesis by (simp add: Cons s'_def)
    qed
  qed
  have hd': "s' = [] \<or> \<not> is_space (hd s')"
    unfolding s'_def using hd_dropWhile [of is_space s] by blast
  then have "rstrip (re_sub_spaces s') = join_spaces (pywords s')" by (rule rstrip_re_sub_spaces)
  also have "pywords s' = pywords s" unfolding s'_def by (rule pywords_dropWhile)
  finally have b: "rstrip (re_sub_spaces s') = join_spaces (pywords s)" .
  have "\<forall>t\<in>set (pywords s). t \<noteq> [] \<and> (\<forall>c\<in>set t. \<not> is_space c)"
    using pywords_tokens by blast
  then have "join_spaces (pywords s) = [] \<or> \<not> is_space (hd (join_spaces (pywords s)))"
    by (rule join_spaces_hd)
  then have c: "lstrip (join_spaces (pywords s)) = join_spaces (pywords s)" by (rule lstrip_id)
  have "strip (re_sub_spaces s') = lstrip (rstrip (re_sub_spaces s'))" by (simp add: strip_def)
  then show ?thesis by (simp only: a b c)
qed

text \<open>
  A word of a sanitized text: it has no whitespace in it, and it is one operator glyph
  alone or has no operator glyph in it.
\<close>

definition ok_token :: "pystr \<Rightarrow> bool" where
  "ok_token t \<longleftrightarrow>
     t \<noteq> [] \<and> list_all (\<lambda>c. \<not> is_space c) t \<and>
     ((length t = 1 \<and> is_operator (hd t)) \<or> list_all (\<lambda>c. \<not> is_operator c) t)"

lemma ok_token_operator: "is_operator c \<Longrightarrow> ok_token [c]"
  by (simp add: ok_token_def not_space_operator)

lemma ok_token_cases:
  assumes "ok_token t"
  obtains (op) c where "t = [c]" "is_operator c"
  | (plain) "t \<noteq> []" "\<forall>c\<in>set t. \<not> is_space c" "\<forall>c\<in>set t. \<not> is_operator c"
proof -
  from assms consider "length t = 1 \<and> is_operator (hd t)"
    | "t \<noteq> [] \<and> (\<forall>c\<in>set t. \<not> is_space c) \<and> (\<forall>c\<in>set t. \<not> is_operator c)"
    by (auto simp: ok_token_def list_all_iff)
  then show thesis
  proof cases
    case 1
    then obtain c where "t = [c]" by (cases t) auto
    with 1 show ?thesis using op by simp
  next
    case 2
    then show ?thesis using plain by blast
  qed
qed

lemma ok_token_nonspace: "ok_token t \<Longrightarrow> t \<noteq> [] \<and> (\<forall>c\<in>set t. \<not> is_space c)"
  by (simp add: ok_token_def list_all_iff)

lemma spaced_Cons:
  "spaced (c # x) = (if is_operator c then [SPACE, c, SPACE] else [c]) @ spaced x"
  by (simp add: spaced_def)

lemma spaced_Nil [simp]: "spaced [] = []"
  by (simp add: spaced_def)

lemma spaced_id: "\<forall>c\<in>set w. \<not> is_operator c \<Longrightarrow> spaced w = w"
  by (induction w) (simp_all add: spaced_Cons)

lemma spaced_hd: "spaced x \<noteq> [] \<Longrightarrow> \<not> is_operator (hd (spaced x))"
  by (cases x) (auto simp: spaced_Cons not_operator_SPACE)

lemma pywords_Cons_nonspace:
  assumes "\<not> is_space c"
  shows "pywords (c # u) =
    (if u = [] \<or> is_space (hd u) then [c] # pywords u
     else (c # hd (pywords u)) # tl (pywords u))"
proof (cases u)
  case Nil
  then show ?thesis using assms by (simp add: pywords_char)
next
  case (Cons d ds)
  show ?thesis
  proof (cases "is_space d")
    case True
    then show ?thesis using assms by (simp add: Cons pywords_char)
  next
    case False
    then show ?thesis using assms by (simp add: Cons pywords_char)
  qed
qed

lemma pywords_spaced_tokens: "t \<in> set (pywords (spaced x)) \<Longrightarrow> ok_token t"
proof (induction x arbitrary: t)
  case Nil
  then show ?case by simp
next
  case (Cons c x)
  define u where "u = spaced x"
  note IH = Cons.IH [folded u_def]
  show ?case
  proof (cases "is_operator c")
    case True
    then have nc: "\<not> is_space c" by (rule not_space_operator)
    have "pywords (spaced (c # x)) = [c] # pywords u"
      using True nc by (simp add: spaced_Cons u_def pywords_space pywords_char is_space_SPACE)
    with Cons.prems have "t = [c] \<or> t \<in> set (pywords u)" by simp
    then show ?thesis using True IH ok_token_operator by blast
  next
    case nop: False
    show ?thesis
    proof (cases "is_space c")
      case True
      then have "pywords (spaced (c # x)) = pywords u"
        using nop by (simp add: spaced_Cons u_def pywords_space)
      with Cons.prems IH show ?thesis by simp
    next
      case False
      have sp: "spaced (c # x) = c # u" using nop by (simp add: spaced_Cons u_def)
      have single: "ok_token [c]" using nop False by (simp add: ok_token_def)
      show ?thesis
      proof (cases "u = [] \<or> is_space (hd u)")
        case True
        then have "pywords (spaced (c # x)) = [c] # pywords u"
          unfolding sp using False by (simp add: pywords_Cons_nonspace)
        with Cons.prems have "t = [c] \<or> t \<in> set (pywords u)" by simp
        then show ?thesis using single IH by blast
      next
        case nsp: False
        then obtain d ds where u: "u = d # ds" and d: "\<not> is_space d" by (cases u) auto
        have pu: "pywords u = (d # takeWhile (\<lambda>x. \<not> is_space x) ds)
            # pywords (dropWhile (\<lambda>x. \<not> is_space x) ds)"
          using d by (simp add: u pywords_char)
        define t0 where "t0 = hd (pywords u)"
        have t0: "t0 \<in> set (pywords u)" and hd0: "hd t0 = d" and "t0 \<noteq> []"
          by (simp_all add: t0_def pu)
        have "\<not> is_operator d" using spaced_hd [of x] u by (simp add: u_def)
        from IH [OF t0] have "\<forall>c\<in>set t0. \<not> is_space c" "\<forall>c\<in>set t0. \<not> is_operator c"
        proof (atomize (full), cases rule: ok_token_cases)
          case (op e)
          with hd0 \<open>\<not> is_operator d\<close> show "(\<forall>c\<in>set t0. \<not> is_space c) \<and> (\<forall>c\<in>set t0. \<not> is_operator c)"
            by simp
        next
          case plain
          then show "(\<forall>c\<in>set t0. \<not> is_space c) \<and> (\<forall>c\<in>set t0. \<not> is_operator c)" by simp
        qed
        then have first: "ok_token (c # t0)"
          using nop False by (simp add: ok_token_def list_all_iff)
        have "pywords (spaced (c # x)) = (c # t0) # tl (pywords u)"
          unfolding sp t0_def using False nsp by (simp add: pywords_Cons_nonspace)
        with Cons.prems have "t = c # t0 \<or> t \<in> set (tl (pywords u))" by simp
        moreover have "set (tl (pywords u)) \<subseteq> set (pywords u)" by (auto simp: pu)
        ultimately show ?thesis using first IH by blast
      qed
    qed
  qed
qed

text \<open>The sanitized text is a sequence of such words with single spaces between them.\<close>

lemma sanitize_text_words: "\<exists>x. sanitize_text s0 = join_spaces (pywords (spaced x))"
proof (cases s0)
  case None
  have "sanitize_text None = join_spaces (pywords (spaced []))" by (simp add: sanitize_text_def)
  then show ?thesis using None by blast
next
  case (Some s)
  show ?thesis
    unfolding Some sanitize_text_def option.case Let_def replace_operators normalize_words
    by blast
qed

lemma sanitize_text_tokens:
  "\<exists>toks. sanitize_text s0 = join_spaces toks \<and> list_all ok_token toks"
proof -
  from sanitize_text_words obtain x where "sanitize_text s0 = join_spaces (pywords (spaced x))"
    by blast
  moreover have "list_all ok_token (pywords (spaced x))"
    using pywords_spaced_tokens by (auto simp: list_all_iff)
  ultimately show ?thesis by blast
qed

lemma join_spaces_nonempty: "toks \<noteq> [] \<Longrightarrow> hd toks \<noteq> [] \<Longrightarrow> join_spaces toks \<noteq> []"
  by (cases toks rule: join_spaces.cases) simp_all

lemma join_spaces_last:
  assumes "\<forall>t\<in>set toks. t \<noteq> [] \<and> (\<forall>c\<in>set t. \<not> is_space c)"
  shows "join_spaces toks = [] \<or> \<not> is_space (last (join_spaces toks))"
  using assms
proof (induction toks rule: join_spaces.induct)
  case 1
  then show ?case by simp
next
  case (2 w)
  then show ?case by (auto simp: last_in_set)
next
  case (3 w v ws)
  then have "join_spaces (v # ws) = [] \<or> \<not> is_space (last (join_spaces (v # ws)))" by simp
  moreover have "join_spaces (v # ws) \<noteq> []" using 3(2) by (intro join_spaces_nonempty) simp_all
  ultimately show ?case by simp
qed

text \<open>
  In a sequence of such words joined by single spaces, an operator glyph has one space
  and then a character other than whitespace on each side, unless the text begins or
  ends there.
\<close>

lemma join_spaces_operator:
  assumes "list_all ok_token toks" "join_spaces toks = pre @ c # post" "is_operator c"
  shows "(pre = [] \<or> (\<exists>p. pre = p @ [SPACE] \<and> p \<noteq> [] \<and> \<not> is_space (last p))) \<and>
         (post = [] \<or> (\<exists>q. post = SPACE # q \<and> q \<noteq> [] \<and> \<not> is_space (hd q)))"
  using assms(1,2)
proof (induction toks arbitrary: pre rule: join_spaces.induct)
  case 1
  then show ?case by simp
next
  case (2 w)
  then have w: "w = pre @ c # post" and ok: "ok_token w" by simp_all
  from ok show ?case
  proof (cases rule: ok_token_cases)
    case (op e)
    with w show ?thesis by (simp add: Cons_eq_append_conv)
  next
    case plain
    with w assms(3) show ?thesis by auto
  qed
next
  case (3 w v ws)
  define J where "J = join_spaces (v # ws)"
  have okw: "ok_token w" and okr: "list_all ok_token (v # ws)" using "3.prems"(1) by simp_all
  have eq: "w @ SPACE # J = pre @ c # post" using "3.prems"(2) by (simp add: J_def)
  have toks: "\<forall>t\<in>set (v # ws). t \<noteq> [] \<and> (\<forall>c\<in>set t. \<not> is_space c)"
    using okr ok_token_nonspace by (auto simp: list_all_iff)
  have Jne: "J \<noteq> []" unfolding J_def using toks by (intro join_spaces_nonempty) simp_all
  have Jhd: "\<not> is_space (hd J)" using join_spaces_hd [OF toks] Jne by (simp add: J_def)
  have wne: "w \<noteq> []" and wlast: "\<not> is_space (last w)"
    using ok_token_nonspace [OF okw] by (simp_all add: last_in_set)
  have cS: "c \<noteq> SPACE" using assms(3) not_operator_SPACE by blast
  from eq obtain us where "(w = pre @ us \<and> us @ SPACE # J = c # post)
      \<or> (w @ us = pre \<and> SPACE # J = us @ c # post)"
    by (auto simp: append_eq_append_conv2)
  then show ?case
  proof (elim disjE conjE)
    assume a: "w = pre @ us" "us @ SPACE # J = c # post"
    then obtain us' where us: "us = c # us'" and post: "post = us' @ SPACE # J"
      using cS by (cases us) auto
    have cw: "c \<in> set w" by (simp add: a(1) us)
    from okw have "pre = [] \<and> us' = []"
    proof (cases rule: ok_token_cases)
      case (op e)
      then have "[e] = pre @ c # us'" using a(1) us by simp
      then show ?thesis by (simp add: Cons_eq_append_conv)
    next
      case plain
      with cw assms(3) show ?thesis by blast
    qed
    then show ?thesis using post Jne Jhd by simp
  next
    assume b: "w @ us = pre" "SPACE # J = us @ c # post"
    then obtain us' where us: "us = SPACE # us'" and J: "J = us' @ c # post"
      using cS by (cases us) auto
    from "3.IH" [OF okr J [unfolded J_def]]
    have ih: "(us' = [] \<or> (\<exists>p. us' = p @ [SPACE] \<and> p \<noteq> [] \<and> \<not> is_space (last p))) \<and>
         (post = [] \<or> (\<exists>q. post = SPACE # q \<and> q \<noteq> [] \<and> \<not> is_space (hd q)))" .
    have "\<exists>p. pre = p @ [SPACE] \<and> p \<noteq> [] \<and> \<not> is_space (last p)"
    proof (cases "us' = []")
      case True
      then have "pre = w @ [SPACE]" using b(1) us by simp
      then show ?thesis using wne wlast by blast
    next
      case False
      with ih obtain p where p: "us' = p @ [SPACE]" "p \<noteq> []" "\<not> is_space (last p)" by blast
      then have "pre = (w @ SPACE # p) @ [SPACE]" using b(1) us by simp
      moreover have "w @ SPACE # p \<noteq> []" "\<not> is_space (last (w @ SPACE # p))" using p by simp_all
      ultimately show ?thesis by blast
    qed
    then show ?thesis using ih by blast
  qed
qed

text \<open>
  Claim C5, as stated: in the output every operator glyph has exactly one space on each
  side. The raw text \<^verbatim>\<open>-5+3\<close> gives \<^verbatim>\<open>- 5 + 3\<close>: the output begins with the minus sign,
  which has no space before it (the spaces that line 79 puts at the ends are stripped by
  line 80).
\<close>

theorem sanitize_text_leading_operator_counterexample:
  "sanitize_text (Some (str_lit ''-5+3'')) = HYPHEN # str_lit '' 5 + 3''"
  by (simp add: eval_defs)

text \<open>
  Claim C5, amended. Wherever an operator glyph \<open>c\<close> stands in the output, between \<open>pre\<close>
  and \<open>post\<close>: before it comes exactly one space, preceded by a character that is not
  whitespace, unless the output begins with \<open>c\<close>; and after it comes exactly one space,
  followed by a character that is not whitespace, unless the output ends with \<open>c\<close>.
\<close>

theorem sanitize_text_operator_spacing:
  assumes "sanitize_text s0 = pre @ c # post" and "is_operator c"
  shows "(pre = [] \<or> (\<exists>p. pre = p @ [SPACE] \<and> p \<noteq> [] \<and> \<not> is_space (last p))) \<and>
         (post = [] \<or> (\<exists>q. post = SPACE # q \<and> q \<noteq> [] \<and> \<not> is_space (hd q)))"
proof -
  from sanitize_text_tokens obtain toks
    where "sanitize_text s0 = join_spaces toks" "list_all ok_token toks" by blast
  with assms(1) have "list_all ok_token toks" "join_spaces toks = pre @ c # post" by simp_all
  then show ?thesis using assms(2) by (rule join_spaces_operator)
qed

theorem sanitize_text_operator_spacing_witness:
  "sanitize_text (Some (str_lit ''-5+3'')) = str_lit ''- 5 '' @ PLUS # str_lit '' 3'' \<and>
   is_operator PLUS \<and>
   (\<exists>p. str_lit ''- 5 '' = p @ [SPACE] \<and> p \<noteq> [] \<and> \<not> is_space (last p)) \<and>
   (\<exists>q. str_lit '' 3'' = SPACE # q \<and> q \<noteq> [] \<and> \<not> is_space (hd q))"
proof -
  have e: "sanitize_text (Some (str_lit ''-5+3'')) = str_lit ''- 5 '' @ PLUS # str_lit '' 3''"
    by (simp add: eval_defs)
  have o: "is_operator PLUS" by (simp add: is_operator_def)
  have n: "str_lit ''- 5 '' \<noteq> []" "str_lit '' 3'' \<noteq> []" by (simp_all add: str_lit_def)
  from sanitize_text_operator_spacing [OF e o] n e o show ?thesis by blast
qed

section \<open>Applying the normalizer twice\<close>

text \<open>The text after line 77, before the trailing \<^verbatim>\<open>=\<close> is stripped.\<close>

definition unescaped :: "pystr \<Rightarrow> pystr" where
  "unescaped s =
     re_sub_escape
       (replace (BACKSLASH # str_lit ''cdot'') [TIMES]
         (replace (BACKSLASH # BACKSLASH # str_lit ''div'') [DIVIDE]
           (replace (BACKSLASH # str_lit ''div'') [DIVIDE]
             (replace (BACKSLASH # BACKSLASH # str_lit ''times'') [TIMES]
               (replace (BACKSLASH # str_lit ''times'') [TIMES]
                 (re_sub_frac (replace [DOLLAR] [] (strip s))))))))"

lemma sanitize_text_unescaped:
  "sanitize_text (Some s) =
     strip (re_sub_spaces (spaced (strip (rstrip_chars [EQUALS] (rstrip (unescaped s))))))"
  unfolding sanitize_text_def option.case Let_def replace_operators unescaped_def ..

lemma set_match_signed_digits:
  "match_signed_digits s = Some (g, r) \<Longrightarrow> set g \<subseteq> set s \<and> set r \<subseteq> set s"
  by (auto simp: match_signed_digits_def Let_def split: list.splits if_splits
      dest: set_takeWhileD set_dropWhileD)

lemma set_match_frac:
  assumes "match_frac s = Some (g1, g2, r)"
  shows "set g1 \<subseteq> set s \<and> set g2 \<subseteq> set s \<and> set r \<subseteq> set s"
proof -
  define n where "n = length (BACKSLASH # str_lit ''frac{'')"
  from assms obtain r1 r2 where 1: "match_signed_digits (drop n s) = Some (g1, r1)"
    and 2: "match_signed_digits (drop 2 r1) = Some (g2, r2)" and 3: "r2 = RBRACE # r"
    unfolding match_frac_def Let_def n_def [symmetric]
    by (auto split: option.splits if_splits list.splits)
  from set_match_signed_digits [OF 1] have a: "set g1 \<subseteq> set s" "set r1 \<subseteq> set s"
    using set_drop_subset [of n s] by auto
  from set_match_signed_digits [OF 2] have b: "set g2 \<subseteq> set r1" "set r2 \<subseteq> set r1"
    using set_drop_subset [of 2 r1] by auto
  from a b 3 show ?thesis by auto
qed

lemma set_re_sub_frac: "set (re_sub_frac s) \<subseteq> set s \<union> {SLASH}"
proof (induction s rule: re_sub_frac.induct)
  case 1
  then show ?case by simp
next
  case (2 c cs)
  show ?case
  proof (cases "match_frac (c # cs)")
    case None
    from 2(1) [OF None] show ?thesis by (auto simp: None)
  next
    case (Some m)
    then obtain g1 g2 rest where m: "m = (g1, g2, rest)" by (cases m)
    from set_match_frac [OF Some [unfolded m]] 2(2) [OF Some [unfolded m] refl refl]
    show ?thesis by (auto simp: Some m)
  qed
qed

lemma set_re_sub_escape: "set (re_sub_escape s) \<subseteq> set s"
  by (induction s rule: re_sub_escape.induct) (auto dest: set_dropWhileD)

lemma set_spaced: "set (spaced s) \<subseteq> set s \<union> {SPACE}"
  by (induction s) (auto simp: spaced_Cons)

lemma unescaped_no_dollar: "DOLLAR \<notin> set (unescaped s)"
proof -
  define x0 where "x0 = replace [DOLLAR] [] (strip s)"
  define x1 where "x1 = re_sub_frac x0"
  define x2 where "x2 = replace (BACKSLASH # str_lit ''times'') [TIMES] x1"
  define x3 where "x3 = replace (BACKSLASH # BACKSLASH # str_lit ''times'') [TIMES] x2"
  define x4 where "x4 = replace (BACKSLASH # str_lit ''div'') [DIVIDE] x3"
  define x5 where "x5 = replace (BACKSLASH # BACKSLASH # str_lit ''div'') [DIVIDE] x4"
  define x6 where "x6 = replace (BACKSLASH # str_lit ''cdot'') [TIMES] x5"
  have u: "unescaped s = re_sub_escape x6"
    by (simp add: unescaped_def x0_def x1_def x2_def x3_def x4_def x5_def x6_def)
  have 0: "DOLLAR \<notin> set x0" by (auto simp: x0_def replace_single)
  have 1: "set x1 \<subseteq> set x0 \<union> {SLASH}" unfolding x1_def by (rule set_re_sub_frac)
  have 2: "set x2 \<subseteq> set x1 \<union> set [TIMES]" unfolding x2_def by (rule set_replace) simp
  have 3: "set x3 \<subseteq> set x2 \<union> set [TIMES]" unfolding x3_def by (rule set_replace) simp
  have 4: "set x4 \<subseteq> set x3 \<union> set [DIVIDE]" unfolding x4_def by (rule set_replace) simp
  have 5: "set x5 \<subseteq> set x4 \<union> set [DIVIDE]" unfolding x5_def by (rule set_replace) simp
  have 6: "set x6 \<subseteq> set x5 \<union> set [TIMES]" unfolding x6_def by (rule set_replace) simp
  have 7: "set (unescaped s) \<subseteq> set x6" unfolding u by (rule set_re_sub_escape)
  have n: "DOLLAR \<noteq> SLASH" "DOLLAR \<noteq> TIMES" "DOLLAR \<noteq> DIVIDE" by (simp_all add: char_defs)
  from 0 1 n have "DOLLAR \<notin> set x1" by auto
  with 2 n have "DOLLAR \<notin> set x2" by auto
  with 3 n have "DOLLAR \<notin> set x3" by auto
  with 4 n have "DOLLAR \<notin> set x4" by auto
  with 5 n have "DOLLAR \<notin> set x5" by auto
  with 6 n have "DOLLAR \<notin> set x6" by auto
  with 7 show ?thesis by auto
qed

lemma unescaped_no_backslash: "BACKSLASH \<notin> set (unescaped s)"
  unfolding unescaped_def by (rule re_sub_escape_no_backslash)

lemma sanitize_text_chars:
  "BACKSLASH \<notin> set (sanitize_text s0)" "DOLLAR \<notin> set (sanitize_text s0)"
proof -
  have "BACKSLASH \<notin> set (sanitize_text s0) \<and> DOLLAR \<notin> set (sanitize_text s0)"
  proof (cases s0)
    case None
    then show ?thesis by (simp add: sanitize_text_def)
  next
    case (Some s)
    define s9 where "s9 = strip (rstrip_chars [EQUALS] (rstrip (unescaped s)))"
    have 9: "set s9 \<subseteq> set (unescaped s)"
      unfolding s9_def using set_strip set_rstrip_chars set_rstrip by fast
    have 10: "set (spaced s9) \<subseteq> set s9 \<union> {SPACE}" by (rule set_spaced)
    have "set (sanitize_text s0) \<subseteq> set (spaced s9) \<union> {SPACE}"
      unfolding Some sanitize_text_unescaped s9_def [symmetric]
      using set_strip set_re_sub_spaces by fast
    moreover have "BACKSLASH \<noteq> SPACE" "DOLLAR \<noteq> SPACE" by (simp_all add: char_defs)
    ultimately show ?thesis
      using 9 10 unescaped_no_backslash [of s] unescaped_no_dollar [of s] by blast
  qed
  then show "BACKSLASH \<notin> set (sanitize_text s0)" "DOLLAR \<notin> set (sanitize_text s0)" by simp_all
qed

lemma pywords_spaced_token:
  assumes "ok_token w" "s = [] \<or> is_space (hd s)"
  shows "pywords (spaced w @ s) = w # pywords s"
  using assms(1)
proof (cases rule: ok_token_cases)
  case (op c)
  then have "\<not> is_space c" using not_space_operator by blast
  then show ?thesis
    using op by (simp add: spaced_Cons pywords_space pywords_char is_space_SPACE)
next
  case plain
  then show ?thesis using assms(2) by (simp add: spaced_id pywords_word)
qed

lemma pywords_spaced_join: "list_all ok_token toks \<Longrightarrow> pywords (spaced (join_spaces toks)) = toks"
proof (induction toks rule: join_spaces.induct)
  case 1
  then show ?case by simp
next
  case (2 w)
  then have "pywords (spaced w @ []) = w # pywords []" by (intro pywords_spaced_token) simp_all
  then show ?case by simp
next
  case (3 w v ws)
  define J where "J = join_spaces (v # ws)"
  have ih: "pywords (spaced J) = v # ws" using 3 by (simp add: J_def)
  have "spaced (w @ SPACE # J) = spaced w @ SPACE # spaced J"
    by (simp add: spaced_append spaced_Cons not_operator_SPACE)
  moreover have "pywords (spaced w @ SPACE # spaced J) = w # pywords (SPACE # spaced J)"
    using 3(2) by (intro pywords_spaced_token) (simp_all add: is_space_SPACE)
  ultimately show ?case by (simp add: J_def [symmetric] pywords_space is_space_SPACE ih)
qed

text \<open>
  Claim C9, as stated: \<^verbatim>\<open>sanitize_text\<close> is idempotent. Line 78 strips the \<^verbatim>\<open>=\<close> at the end
  of the text and then the whitespace before it, but not a \<^verbatim>\<open>=\<close> before that whitespace:
  \<^verbatim>\<open>a= =\<close> becomes \<^verbatim>\<open>a=\<close>, and applying the function again gives \<^verbatim>\<open>a\<close>.
\<close>

theorem sanitize_text_not_idempotent_counterexample:
  "sanitize_text (Some (str_lit ''a= ='')) = str_lit ''a='' \<and>
   sanitize_text (Some (sanitize_text (Some (str_lit ''a= =''))))  = str_lit ''a'' \<and>
   str_lit ''a'' \<noteq> str_lit ''a=''"
proof -
  have 1: "sanitize_text (Some (str_lit ''a= ='')) = str_lit ''a=''" by (simp add: eval_defs)
  have 2: "sanitize_text (Some (str_lit ''a='')) = str_lit ''a''" by (simp add: eval_defs)
  show ?thesis by (simp add: 1 2) (simp add: str_lit_def)
qed

text \<open>
  Claim C9, amended. Where the sanitized text does not end with \<^verbatim>\<open>=\<close>, sanitizing it
  again changes nothing.
\<close>

theorem sanitize_text_idempotent:
  assumes "sanitize_text s0 = [] \<or> last (sanitize_text s0) \<noteq> EQUALS"
  shows "sanitize_text (Some (sanitize_text s0)) = sanitize_text s0"
proof -
  define t where "t = sanitize_text s0"
  from sanitize_text_tokens obtain toks where t: "t = join_spaces toks"
    and ok: "list_all ok_token toks" unfolding t_def by blast
  have nb: "BACKSLASH \<notin> set t" and nd: "DOLLAR \<notin> set t"
    unfolding t_def by (rule sanitize_text_chars)+
  have toks: "\<forall>w\<in>set toks. w \<noteq> [] \<and> (\<forall>c\<in>set w. \<not> is_space c)"
    using ok ok_token_nonspace by (auto simp: list_all_iff)
  have ends: "t = [] \<or> (\<not> is_space (hd t) \<and> \<not> is_space (last t))"
    unfolding t using join_spaces_hd [OF toks] join_spaces_last [OF toks] by blast
  have 1: "strip t = t" using ends by (rule strip_id)
  have 2: "rstrip t = t" using ends by (intro rstrip_id) blast
  have 3: "rstrip_chars [EQUALS] t = t" using assms by (intro rstrip_chars_id) (simp add: t_def)
  have "sanitize_text (Some t) =
     strip (re_sub_spaces
       (replace [DIVIDE] [SPACE, DIVIDE, SPACE]
         (replace [TIMES] [SPACE, TIMES, SPACE]
           (replace [HYPHEN] [SPACE, HYPHEN, SPACE]
             (replace [PLUS] [SPACE, PLUS, SPACE]
               (strip (rstrip_chars [EQUALS] (rstrip (strip t)))))))))"
    using nb nd by (rule sanitize_text_plain)
  also have "\<dots> = join_spaces (pywords (spaced t))"
    by (simp only: 1 2 3 replace_operators normalize_words)
  also have "\<dots> = t" unfolding t using ok by (simp add: pywords_spaced_join)
  finally show ?thesis by (simp add: t_def)
qed

theorem sanitize_text_idempotent_witness:
  "sanitize_text (Some (str_lit ''12+7='')) = str_lit ''12 + 7'' \<and>
   last (str_lit ''12 + 7'') \<noteq> EQUALS \<and>
   sanitize_text (Some (str_lit ''12 + 7'')) = str_lit ''12 + 7''"
proof -
  have e: "sanitize_text (Some (str_lit ''12+7='')) = str_lit ''12 + 7''"
    by (simp add: eval_defs)
  have l: "last (str_lit ''12 + 7'') \<noteq> EQUALS" by (simp add: str_lit_def char_defs)
  from sanitize_text_idempotent [of "Some (str_lit ''12+7='')", unfolded e] l
  have "sanitize_text (Some (str_lit ''12 + 7'')) = str_lit ''12 + 7''" by blast
  with e l show ?thesis by blast
qed

section \<open>Python floats\<close>

text \<open>
  A Python \<^verbatim>\<open>float\<close> is an IEEE 754 binary64 number. A finite one is kept as its sign
  (\<open>True\<close> for negative, so that \<^verbatim>\<open>-0.0\<close> is \<open>Finite True 0\<close>) and the exact rational
  value of its magnitude.
\<close>

datatype pyfloat = Finite bool rat | Infinity bool | NaN

datatype exn = ValueError | TypeError | KeyError pystr | IndexError | AttributeError
  | ZeroDivisionError | OverflowError | Raised string

definition pow2 :: "int \<Rightarrow> rat" where
  "pow2 k = (if 0 \<le> k then 2 ^ nat k else 1 / 2 ^ nat (- k))"

text \<open>The integer nearest to \<open>a / b\<close>, the even one of two that are equally near.\<close>

definition round_half_even :: "nat \<Rightarrow> nat \<Rightarrow> nat" where
  "round_half_even a b =
     (let q = a div b; r = a mod b
      in if 2 * r < b then q else if b < 2 * r then q + 1 else if even q then q else q + 1)"

text \<open>\<open>\<lfloor>log\<^sub>2 (a / b)\<rfloor>\<close> for positive \<open>a\<close> and \<open>b\<close>.\<close>

definition ilog2 :: "nat \<Rightarrow> nat \<Rightarrow> int" where
  "ilog2 a b =
     (let d = bitlen (int a) - bitlen (int b)
      in if (if 0 \<le> d then b * 2 ^ nat d \<le> a else b \<le> a * 2 ^ nat (- d)) then d else d - 1)"

text \<open>
  Rounding to nearest, ties to even: the magnitude of the binary64 number nearest to
  \<open>a / b\<close> (\<open>b\<close> positive), or \<open>None\<close> when it is beyond the largest finite one. A number
  in \<open>[2\<^sup>e, 2\<^sup>e\<^sup>+\<^sup>1)\<close> is rounded to a multiple of \<open>2\<^sup>e\<^sup>-\<^sup>5\<^sup>2\<close>; below \<open>2\<^sup>-\<^sup>1\<^sup>0\<^sup>2\<^sup>2\<close> (subnormal
  numbers) the multiples are those of \<open>2\<^sup>-\<^sup>1\<^sup>0\<^sup>7\<^sup>4\<close>.
\<close>

definition round_binary64 :: "nat \<Rightarrow> nat \<Rightarrow> rat option" where
  "round_binary64 a b =
     (if a = 0 then Some 0
      else let e = max (ilog2 a b) (- 1022);
               k = e - 52;
               n = (if 0 \<le> k then round_half_even a (b * 2 ^ nat k)
                    else round_half_even (a * 2 ^ nat (- k)) b);
               r = of_nat n * pow2 k
           in if pow2 1024 \<le> r then None else Some r)"

text \<open>
  \<^verbatim>\<open>int(s)\<close> and \<^verbatim>\<open>float(s)\<close> on the strings that the patterns of \<^verbatim>\<open>sanitize_answer\<close>
  let through: a sign and decimal digits, for \<^verbatim>\<open>float\<close> also a point and more digits.
  (Python reads more than that, surrounding whitespace and exponents for instance, which
  cannot reach these calls.) \<^verbatim>\<open>int\<close> refuses a string of more than
  \<^verbatim>\<open>sys.int_max_str_digits\<close> digits, 4300 unless the interpreter is configured otherwise,
  with \<^verbatim>\<open>ValueError\<close>; leading zeros count, the sign does not. \<^verbatim>\<open>float\<close> has no such
  limit: it rounds the decimal correctly and gives an infinity where it is too large.
\<close>

definition int_max_str_digits :: nat where
  "int_max_str_digits = 4300"

definition digit_step :: "nat option \<Rightarrow> nat \<Rightarrow> nat option" where
  "digit_step acc c =
     (case (acc, digit_value c) of
        (Some v, Some d) \<Rightarrow> Some (10 * v + d)
      | _ \<Rightarrow> None)"

definition digits_value :: "pystr \<Rightarrow> nat option" where
  "digits_value ds = (if ds = [] then None else foldl digit_step (Some 0) ds)"

definition py_int :: "pystr \<Rightarrow> exn + int" where
  "py_int s =
     (let (neg, ds) = (case s of
                         c # cs \<Rightarrow> if c = HYPHEN then (True, cs)
                                   else if c = PLUS then (False, cs) else (False, s)
                       | [] \<Rightarrow> (False, s))
      in case digits_value ds of
           None \<Rightarrow> Inl ValueError
         | Some v \<Rightarrow> if int_max_str_digits < length ds then Inl ValueError
                     else Inr (if neg then - int v else int v))"

definition py_float :: "pystr \<Rightarrow> exn + pyfloat" where
  "py_float s =
     (let (neg, r) = (case s of
                        c # cs \<Rightarrow> if c = HYPHEN then (True, cs)
                                  else if c = PLUS then (False, cs) else (False, s)
                      | [] \<Rightarrow> (False, s));
          ip = takeWhile (\<lambda>c. c \<noteq> DOT) r;
          fp = (case dropWhile (\<lambda>c. c \<noteq> DOT) r of [] \<Rightarrow> [] | c # cs \<Rightarrow> cs)
      in if DOT \<in> set r \<and> fp = [] then Inl ValueError
         else case digits_value (ip @ fp) of
                None \<Rightarrow> Inl ValueError
              | Some v \<Rightarrow>
                  (case round_binary64 v (10 ^ length fp) of
                     None \<Rightarrow> Inr (Infinity neg)
                   | Some m \<Rightarrow> Inr (Finite neg m)))"

text \<open>
  \<^verbatim>\<open>a / b\<close> on integers: the correctly rounded quotient, with the sign of a zero result
  taken from the operands; \<^verbatim>\<open>OverflowError\<close> where the quotient is too large for a float.
\<close>

definition py_true_div :: "int \<Rightarrow> int \<Rightarrow> exn + pyfloat" where
  "py_true_div a b =
     (if b = 0 then Inl ZeroDivisionError
      else case round_binary64 (nat \<bar>a\<bar>) (nat \<bar>b\<bar>) of
             None \<Rightarrow> Inl OverflowError
           | Some m \<Rightarrow> Inr (Finite ((a < 0) \<noteq> (b < 0)) m))"

section \<open>The answer sanitizer\<close>

text \<open>\<^verbatim>\<open>re.fullmatch(r'[-+]?\d+(\.\d+)?', s)\<close>\<close>

definition fullmatch_plain :: "pystr \<Rightarrow> bool" where
  "fullmatch_plain s =
     (let r = (case s of c # cs \<Rightarrow> if c = HYPHEN \<or> c = PLUS then cs else s | [] \<Rightarrow> s)
      in takeWhile is_digit r \<noteq> [] \<and>
         (case dropWhile is_digit r of
            [] \<Rightarrow> True
          | c # fp \<Rightarrow> c = DOT \<and> fp \<noteq> [] \<and> list_all is_digit fp))"

text \<open>\<^verbatim>\<open>re.fullmatch(r'(-?\d+)\s*/\s*(\d+)', s)\<close>: the two groups of a match.\<close>

definition fullmatch_fraction :: "pystr \<Rightarrow> (pystr \<times> pystr) option" where
  "fullmatch_fraction s =
     (case match_signed_digits s of
        None \<Rightarrow> None
      | Some (g1, r1) \<Rightarrow>
          (case dropWhile is_space r1 of
             [] \<Rightarrow> None
           | c # r2 \<Rightarrow>
               (let g2 = dropWhile is_space r2
                in if c = SLASH \<and> g2 \<noteq> [] \<and> list_all is_digit g2 then Some (g1, g2)
                   else None)))"

text \<open>
  \<^verbatim>\<open>sanitize_answer\<close>. The result is \<open>Inr None\<close> for \<^verbatim>\<open>None\<close> (unparseable),
  \<open>Inr (Some x)\<close> for the float \<open>x\<close>, and \<open>Inl e\<close> where the exception \<open>e\<close> leaves the
  function. In the source \<^verbatim>\<open>r'\,'\<close> is a backslash and a comma.
\<close>

definition sanitize_answer :: "pystr option \<Rightarrow> exn + pyfloat option" where
  "sanitize_answer a0 =
     (case a0 of
        None \<Rightarrow> Inr None
      | Some a \<Rightarrow>
          (let s = replace [UMINUS] [HYPHEN]
                     (replace [BACKSLASH, COMMA] [] (replace [DOLLAR] [] (strip a)));
               s_plain = replace [COMMA] [] s
           in if fullmatch_plain s_plain
              then (case py_float s_plain of Inl e \<Rightarrow> Inl e | Inr x \<Rightarrow> Inr (Some x))
              else (case fullmatch_fraction s of
                      Some (g1, g2) \<Rightarrow>
                        (case py_int g1 of
                           Inl e \<Rightarrow> Inl e
                         | Inr num \<Rightarrow>
                             (case py_int g2 of
                                Inl e \<Rightarrow> Inl e
                              | Inr den \<Rightarrow>
                                  if den = 0 then Inr None
                                  else (case py_true_div num den of
                                          Inl e \<Rightarrow> Inl e
                                        | Inr x \<Rightarrow> Inr (Some x))))
                    | None \<Rightarrow> Inr None)))"

section \<open>Facts about rounding\<close>

lemma pow2_powi: "pow2 k = 2 powi k"
  by (simp add: pow2_def power_int_def inverse_eq_divide power_divide)

lemma pow2_pos [simp]: "0 < pow2 k"
  by (simp add: pow2_powi)

lemma pow2_nonzero [simp]: "pow2 k \<noteq> 0"
  by (simp add: pow2_powi)

lemma pow2_add: "pow2 (j + k) = pow2 j * pow2 k"
  by (simp add: pow2_powi power_int_add)

lemma pow2_mono: "j \<le> k \<Longrightarrow> pow2 j \<le> pow2 k"
  by (simp add: pow2_powi power_int_increasing)

lemma pow2_strict_mono: "j < k \<Longrightarrow> pow2 j < pow2 k"
  by (simp add: pow2_powi power_int_strict_increasing)

lemma pow2_less_cancel: "pow2 j < pow2 k \<Longrightarrow> j < k"
  using pow2_mono [of k j] by (cases "j < k") auto

lemma pow2_nat: "0 \<le> k \<Longrightarrow> pow2 k = 2 ^ nat k"
  by (simp add: pow2_def)

text \<open>The quotient that a call of \<open>round_binary64\<close> rounds.\<close>

definition ratio :: "nat \<Rightarrow> nat \<Rightarrow> rat" where
  "ratio a b = of_nat a / of_nat b"

lemma round_half_even_bound:
  assumes "0 < b"
  shows "\<bar>of_nat (round_half_even a b) - ratio a b\<bar> \<le> 1 / 2"
proof -
  define q r where "q = a div b" and "r = a mod b"
  have a: "a = q * b + r" and r: "r < b" using assms by (simp_all add: q_def r_def)
  have b: "(0::rat) < of_nat b" using assms by simp
  have ra: "ratio a b = of_nat q + of_nat r / of_nat b"
    using b by (simp add: ratio_def a field_simps)
  have r2: "(of_nat r :: rat) < of_nat b" using r by simp
  consider "2 * r < b" | "b < 2 * r" | "2 * r = b" by linarith
  then show ?thesis
  proof cases
    case 1
    then have "(2 :: rat) * of_nat r < of_nat b" by (metis of_nat_less_iff of_nat_mult of_nat_numeral)
    then have "of_nat r / of_nat b < (1 / 2 :: rat)" using b by (simp add: field_simps)
    moreover have "0 \<le> of_nat r / (of_nat b :: rat)" by simp
    ultimately show ?thesis using 1
      by (simp add: round_half_even_def Let_def q_def [symmetric] r_def [symmetric] ra)
  next
    case 2
    then have "(of_nat b :: rat) < 2 * of_nat r" by (metis of_nat_less_iff of_nat_mult of_nat_numeral)
    then have "(1 / 2 :: rat) < of_nat r / of_nat b" using b by (simp add: field_simps)
    moreover have "of_nat r / (of_nat b :: rat) < 1" using r2 b by simp
    ultimately show ?thesis using 2
      by (simp add: round_half_even_def Let_def q_def [symmetric] r_def [symmetric] ra)
  next
    case 3
    then have "(of_nat b :: rat) = 2 * of_nat r" by (metis of_nat_mult of_nat_numeral)
    then have "of_nat r / of_nat b = (1 / 2 :: rat)" using b by (simp add: field_simps)
    then show ?thesis using 3
      by (simp add: round_half_even_def Let_def q_def [symmetric] r_def [symmetric] ra)
  qed
qed

text \<open>The integer that \<open>round_binary64\<close> multiplies by \<open>2\<^sup>k\<close>.\<close>

definition scaled_round :: "nat \<Rightarrow> nat \<Rightarrow> int \<Rightarrow> nat" where
  "scaled_round a b k =
     (if 0 \<le> k then round_half_even a (b * 2 ^ nat k) else round_half_even (a * 2 ^ nat (- k)) b)"

lemma scaled_round_bound:
  assumes "0 < b"
  shows "\<bar>of_nat (scaled_round a b k) - ratio a b / pow2 k\<bar> \<le> 1 / 2"
proof (cases "0 \<le> k")
  case True
  have "ratio a (b * 2 ^ nat k) = ratio a b / pow2 k"
    using True by (simp add: ratio_def pow2_def)
  with round_half_even_bound [of "b * 2 ^ nat k" a] assms True show ?thesis
    by (simp add: scaled_round_def)
next
  case False
  have "ratio (a * 2 ^ nat (- k)) b = ratio a b / pow2 k"
    using False by (simp add: ratio_def pow2_def)
  with round_half_even_bound [of b "a * 2 ^ nat (- k)"] assms False show ?thesis
    by (simp add: scaled_round_def)
qed

lemma scaled_round_value:
  assumes "0 < b"
  shows "\<bar>of_nat (scaled_round a b k) * pow2 k - ratio a b\<bar> \<le> pow2 (k - 1)"
proof -
  have "\<bar>of_nat (scaled_round a b k) * pow2 k - ratio a b\<bar>
        = \<bar>of_nat (scaled_round a b k) - ratio a b / pow2 k\<bar> * pow2 k"
  proof -
    have "of_nat (scaled_round a b k) * pow2 k - ratio a b
          = (of_nat (scaled_round a b k) - ratio a b / pow2 k) * pow2 k"
    proof -
      show ?thesis by (simp add: field_simps)
    qed
    moreover have "\<bar>pow2 k\<bar> = pow2 k" using pow2_pos [of k] by (simp only: abs_of_pos)
    ultimately show ?thesis by (simp only: abs_mult)
  qed
  also have "\<dots> \<le> 1 / 2 * pow2 k"
    using scaled_round_bound [OF assms, of a k] pow2_pos [of k] by (simp add: mult_right_mono)
  also have "1 / 2 * pow2 k = pow2 (k - 1)"
    using pow2_add [of "k - 1" 1] by (simp add: pow2_def)
  finally show ?thesis .
qed

lemma round_binary64_alt:
  "round_binary64 a b =
     (if a = 0 then Some 0
      else let k = max (ilog2 a b) (- 1022) - 52;
               r = of_nat (scaled_round a b k) * pow2 k
           in if pow2 1024 \<le> r then None else Some r)"
  by (simp add: round_binary64_def scaled_round_def Let_def)

lemma ilog2_bounds:
  assumes "0 < a" "0 < b"
  shows "pow2 (ilog2 a b) \<le> ratio a b" and "ratio a b < pow2 (ilog2 a b + 1)"
proof -
  define la lb where "la = bitlen (int a)" and "lb = bitlen (int b)"
  define d where "d = la - lb"
  have ba: "2 ^ nat (la - 1) \<le> int a" "int a < 2 ^ nat la"
    using bitlen_bounds [of "int a"] assms by (simp_all add: la_def)
  have bb: "2 ^ nat (lb - 1) \<le> int b" "int b < 2 ^ nat lb"
    using bitlen_bounds [of "int b"] assms by (simp_all add: lb_def)
  have la1: "1 \<le> la" and lb1: "1 \<le> lb"
    using assms bitlen_eq_zero_iff [of "int a"] bitlen_eq_zero_iff [of "int b"]
      bitlen_nonneg [of "int a"] bitlen_nonneg [of "int b"]
    by (auto simp: la_def lb_def)
  have ra: "pow2 (la - 1) \<le> of_nat a" "of_nat a < pow2 la"
  proof -
    have "(of_int (2 ^ nat (la - 1)) :: rat) \<le> of_int (int a)" using ba(1) by (rule of_int_le_iff [THEN iffD2])
    then show "pow2 (la - 1) \<le> of_nat a" using la1 by (simp add: pow2_def)
    have "(of_int (int a) :: rat) < of_int (2 ^ nat la)" using ba(2) by (rule of_int_less_iff [THEN iffD2])
    then show "of_nat a < pow2 la" using la1 by (simp add: pow2_def)
  qed
  have rb: "pow2 (lb - 1) \<le> of_nat b" "of_nat b < pow2 lb"
  proof -
    have "(of_int (2 ^ nat (lb - 1)) :: rat) \<le> of_int (int b)" using bb(1) by (rule of_int_le_iff [THEN iffD2])
    then show "pow2 (lb - 1) \<le> of_nat b" using lb1 by (simp add: pow2_def)
    have "(of_int (int b) :: rat) < of_int (2 ^ nat lb)" using bb(2) by (rule of_int_less_iff [THEN iffD2])
    then show "of_nat b < pow2 lb" using lb1 by (simp add: pow2_def)
  qed
  have bpos: "(0::rat) < of_nat b" using assms by simp
  have up: "ratio a b < pow2 (d + 1)"
  proof -
    have "of_nat a < pow2 la" by (rule ra)
    also have "pow2 la = pow2 (d + 1) * pow2 (lb - 1)"
      using pow2_add [of "d + 1" "lb - 1"] by (simp add: d_def)
    also have "\<dots> \<le> pow2 (d + 1) * of_nat b"
      using rb(1) by (simp add: mult_left_mono less_imp_le)
    finally show ?thesis using bpos by (simp add: ratio_def field_simps)
  qed
  have low: "pow2 (d - 1) < ratio a b"
  proof -
    have "pow2 (d - 1) * of_nat b < pow2 (d - 1) * pow2 lb"
      using rb(2) by (simp add: mult_strict_left_mono)
    also have "\<dots> = pow2 (la - 1)"
      using pow2_add [of "d - 1" lb] by (simp add: d_def)
    also have "\<dots> \<le> of_nat a" by (rule ra)
    finally show ?thesis using bpos by (simp add: ratio_def field_simps)
  qed
  have test: "(if 0 \<le> d then b * 2 ^ nat d \<le> a else b \<le> a * 2 ^ nat (- d)) \<longleftrightarrow> pow2 d \<le> ratio a b"
  proof (cases "0 \<le> d")
    case True
    have "(b * 2 ^ nat d \<le> a) = ((of_nat (b * 2 ^ nat d) :: rat) \<le> of_nat a)"
      by (simp only: of_nat_le_iff)
    also have "\<dots> = (pow2 d \<le> ratio a b)"
      using True bpos by (simp add: pow2_def ratio_def field_simps)
    finally show ?thesis using True by simp
  next
    case False
    have "(b \<le> a * 2 ^ nat (- d)) = ((of_nat b :: rat) \<le> of_nat (a * 2 ^ nat (- d)))"
      by (simp only: of_nat_le_iff)
    also have "\<dots> = (pow2 d \<le> ratio a b)"
      using False bpos by (simp add: pow2_def ratio_def field_simps)
    finally show ?thesis using False by simp
  qed
  have "ilog2 a b = (if (if 0 \<le> d then b * 2 ^ nat d \<le> a else b \<le> a * 2 ^ nat (- d)) then d
      else d - 1)"
    by (simp add: ilog2_def Let_def la_def lb_def d_def)
  then have il: "ilog2 a b = (if pow2 d \<le> ratio a b then d else d - 1)"
    by (simp only: test)
  show "pow2 (ilog2 a b) \<le> ratio a b" using low by (simp add: il less_imp_le)
  show "ratio a b < pow2 (ilog2 a b + 1)" using up by (auto simp: il)
qed

lemma round_binary64_overflow:
  assumes "0 < b" "pow2 1024 \<le> ratio a b"
  shows "round_binary64 a b = None"
proof -
  have apos: "0 < a"
    using assms pow2_pos [of 1024] by (cases "a = 0") (auto simp: ratio_def)
  define e where "e = ilog2 a b"
  define k where "k = e - 52"
  define n where "n = scaled_round a b k"
  have "pow2 1024 < pow2 (e + 1)"
    using assms(2) ilog2_bounds(2) [OF apos assms(1)] by (simp add: e_def)
  then have e: "1024 \<le> e" using pow2_less_cancel [of 1024 "e + 1"] by simp
  then have m: "max e (- 1022) = e" by simp
  have "pow2 e \<le> ratio a b" using ilog2_bounds(1) [OF apos assms(1)] by (simp add: e_def)
  moreover have "ratio a b \<le> of_nat n * pow2 k + pow2 (k - 1)"
    using scaled_round_value [OF assms(1), of a k] by (simp add: n_def abs_le_iff)
  ultimately have 1: "pow2 e - pow2 (k - 1) \<le> of_nat n * pow2 k" by simp
  have pe: "pow2 e = 2 ^ 52 * pow2 k"
    using pow2_add [of 52 k] by (simp add: k_def pow2_def)
  have pk: "pow2 (k - 1) = 1 / 2 * pow2 k"
    using pow2_add [of "k - 1" 1] by (simp add: pow2_def)
  have "(2 ^ 52 - 1 / 2) * pow2 k \<le> of_nat n * pow2 k"
    using 1 by (simp add: pe pk algebra_simps)
  then have "(2 ^ 52 - 1 / 2 :: rat) \<le> of_nat n"
    using pow2_pos [of k] by (simp only: mult_le_cancel_right_pos)
  then have "(2 ^ 52 :: rat) \<le> of_nat n"
  proof -
    assume h: "(2 ^ 52 - 1 / 2 :: rat) \<le> of_nat n"
    show ?thesis
    proof (rule ccontr)
      assume "\<not> (2 ^ 52 :: rat) \<le> of_nat n"
      then have "(of_nat n :: rat) < of_nat (2 ^ 52)" by simp
      then have "n < 2 ^ 52" by (simp only: of_nat_less_iff)
      then have "n + 1 \<le> 2 ^ 52" by simp
      then have "(of_nat (n + 1) :: rat) \<le> of_nat (2 ^ 52)" by (simp only: of_nat_le_iff)
      with h show False by simp
    qed
  qed
  then have "2 ^ 52 * pow2 k \<le> of_nat n * pow2 k"
    using pow2_pos [of k] by (simp only: mult_le_cancel_right_pos)
  then have "pow2 e \<le> of_nat n * pow2 k" by (simp add: pe)
  moreover have "pow2 1024 \<le> pow2 e" using e by (rule pow2_mono)
  ultimately have "pow2 1024 \<le> of_nat n * pow2 k" by simp
  then show ?thesis
    using apos by (simp add: round_binary64_alt Let_def m e_def [symmetric] k_def [symmetric] n_def [symmetric])
qed

lemma round_binary64_finite:
  assumes "0 < b" "ratio a b < pow2 1024 - pow2 970"
  shows "\<exists>m. round_binary64 a b = Some m"
proof (cases "a = 0")
  case True
  then show ?thesis by (simp add: round_binary64_def)
next
  case False
  then have apos: "0 < a" by simp
  define e where "e = max (ilog2 a b) (- 1022)"
  define k where "k = e - 52"
  define n where "n = scaled_round a b k"
  have "pow2 (ilog2 a b) < pow2 1024"
    using ilog2_bounds(1) [OF apos assms(1)] assms(2) pow2_pos [of 970] by linarith
  then have "ilog2 a b < 1024" by (rule pow2_less_cancel)
  then have "k - 1 \<le> 970" by (simp add: k_def e_def)
  then have "pow2 (k - 1) \<le> pow2 970" by (rule pow2_mono)
  moreover have "of_nat n * pow2 k \<le> ratio a b + pow2 (k - 1)"
    using scaled_round_value [OF assms(1), of a k] by (simp add: n_def abs_le_iff)
  ultimately have "of_nat n * pow2 k < pow2 1024" using assms(2) by simp
  then show ?thesis
    using apos by (simp add: round_binary64_alt Let_def e_def [symmetric] k_def [symmetric] n_def [symmetric])
qed

text \<open>
  Between \<open>2\<^sup>1\<^sup>0\<^sup>2\<^sup>4 - 2\<^sup>9\<^sup>7\<^sup>0\<close> and \<open>2\<^sup>1\<^sup>0\<^sup>2\<^sup>4\<close> rounding goes up to \<open>2\<^sup>1\<^sup>0\<^sup>2\<^sup>4\<close>, also at the lower end,
  where the tie goes to the even neighbour. So \<open>2\<^sup>1\<^sup>0\<^sup>2\<^sup>4 - 2\<^sup>9\<^sup>7\<^sup>0\<close> is exactly where the
  finite floats end.
\<close>

lemma round_half_even_ge_quotient: "a div b \<le> round_half_even a b"
  by (simp add: round_half_even_def Let_def)

lemma round_half_even_tie_up:
  assumes "0 < b" "even N" "0 < N" "(2 * N - 1) * b \<le> 2 * a"
  shows "N \<le> round_half_even a b"
proof -
  define q r where "q = a div b" and "r = a mod b"
  have a: "a = q * b + r" and r: "r < b" using assms by (simp_all add: q_def r_def)
  show ?thesis
  proof (cases "N \<le> q")
    case True
    then show ?thesis using round_half_even_ge_quotient [of a b] by (simp add: q_def)
  next
    case False
    then have qN: "q + 1 \<le> N" by simp
    have "2 * a < (2 * q + 2) * b" using a r by (simp add: algebra_simps)
    with assms(4) have "(2 * N - 1) * b < (2 * q + 2) * b" by simp
    then have "2 * N - 1 < 2 * q + 2" by (simp only: mult_less_cancel2)
    then have N: "N = q + 1" using qN by linarith
    have "(2 * q + 1) * b \<le> 2 * (q * b + r)" using assms(4) by (simp add: N a [symmetric])
    then have br: "b \<le> 2 * r" by (simp add: algebra_simps)
    have "odd q" using assms(2) N by simp
    then show ?thesis using br
      by (simp add: round_half_even_def Let_def q_def [symmetric] r_def [symmetric] N)
  qed
qed

lemma round_binary64_gap:
  assumes "0 < b" "pow2 1024 - pow2 970 \<le> ratio a b" "ratio a b < pow2 1024"
  shows "round_binary64 a b = None"
proof -
  have thr: "pow2 1023 \<le> pow2 1024 - pow2 970" by (simp add: pow2_def)
  have apos: "0 < a"
    using assms(2) thr pow2_pos [of 1023] by (cases "a = 0") (auto simp: ratio_def)
  define e where "e = ilog2 a b"
  have "pow2 e < pow2 1024"
    using ilog2_bounds(1) [OF apos assms(1)] assms(3) by (simp add: e_def)
  then have e1: "e < 1024" by (rule pow2_less_cancel)
  have "pow2 1023 < pow2 (e + 1)"
    using ilog2_bounds(2) [OF apos assms(1)] assms(2) thr by (simp add: e_def)
  then have "1023 < e + 1" by (rule pow2_less_cancel)
  with e1 have e: "e = 1023" by simp
  define X :: nat where "X = (2 ^ 54 - 1) * 2 ^ 970"
  have X: "(of_nat X :: rat) = pow2 1024 - pow2 970" by (simp add: X_def pow2_def)
  have bpos: "(0::rat) < of_nat b" using assms(1) by simp
  have "of_nat X * of_nat b \<le> (of_nat a :: rat)"
    using assms(2) bpos unfolding X [symmetric] by (simp add: ratio_def field_simps)
  then have "(of_nat (X * b) :: rat) \<le> of_nat a" by simp
  then have Xb: "X * b \<le> a" by (simp only: of_nat_le_iff)
  define Y Z :: nat where "Y = 2 * 2 ^ 53 - 1" and "Z = 2 ^ 971"
  have YZ: "Y * Z = 2 * X" by (simp add: Y_def Z_def X_def)
  have "Y * (b * Z) = (Y * Z) * b" by (simp only: ac_simps)
  also have "\<dots> = 2 * (X * b)" by (simp only: YZ ac_simps)
  finally have eq: "Y * (b * Z) = 2 * (X * b)" .
  have "2 * (X * b) \<le> 2 * a" using Xb by (simp only: mult_le_mono2)
  then have "Y * (b * Z) \<le> 2 * a" by (simp only: eq)
  then have le: "(2 * 2 ^ 53 - 1) * (b * 2 ^ 971) \<le> 2 * a" by (simp only: Y_def Z_def)
  have "0 < b * 2 ^ 971" using assms(1) by simp
  moreover have "even ((2::nat) ^ 53)" by simp
  moreover have "0 < (2::nat) ^ 53" by simp
  ultimately have "2 ^ 53 \<le> round_half_even a (b * 2 ^ 971)"
    using le by (rule round_half_even_tie_up)
  then have n: "2 ^ 53 \<le> scaled_round a b 971" by (simp add: scaled_round_def)
  define N :: nat where "N = 2 ^ 53"
  have "N \<le> scaled_round a b 971" using n by (simp only: N_def)
  then have "(of_nat N :: rat) \<le> of_nat (scaled_round a b 971)"
    by (simp only: of_nat_le_iff)
  then have m: "of_nat N * pow2 971 \<le> of_nat (scaled_round a b 971) * pow2 971"
    using pow2_pos [of 971] by (simp only: mult_le_cancel_right_pos)
  have "of_nat N * pow2 971 = pow2 1024" by (simp add: N_def pow2_def)
  with m have "pow2 1024 \<le> of_nat (scaled_round a b 971) * pow2 971" by (simp only:)
  then show ?thesis
    using apos by (simp add: round_binary64_alt Let_def e_def [symmetric] e)
qed

lemma round_binary64_None_iff:
  assumes "0 < b"
  shows "round_binary64 a b = None \<longleftrightarrow> pow2 1024 - pow2 970 \<le> ratio a b"
proof
  assume "round_binary64 a b = None"
  then show "pow2 1024 - pow2 970 \<le> ratio a b"
    using round_binary64_finite [OF assms, of a] by (cases "ratio a b < pow2 1024 - pow2 970") auto
next
  assume h: "pow2 1024 - pow2 970 \<le> ratio a b"
  show "round_binary64 a b = None"
  proof (cases "ratio a b < pow2 1024")
    case True
    with assms h show ?thesis by (rule round_binary64_gap)
  next
    case False
    then have "pow2 1024 \<le> ratio a b" by simp
    with assms show ?thesis by (rule round_binary64_overflow)
  qed
qed


section \<open>Facts about digits and the patterns\<close>

lemma is_digit_iff: "is_digit c \<longleftrightarrow> (\<exists>z\<in>set nd_starts. z \<le> c \<and> c < z + 10)"
proof (cases "find (\<lambda>z. z \<le> c \<and> c < z + 10) nd_starts")
  case None
  then have "\<not> is_digit c" by (simp add: is_digit_def digit_value_def)
  moreover from None have "\<not> (\<exists>z\<in>set nd_starts. z \<le> c \<and> c < z + 10)"
    by (auto simp: find_None_iff)
  ultimately show ?thesis by simp
next
  case (Some z)
  then have "z \<in> set nd_starts \<and> z \<le> c \<and> c < z + 10"
    by (auto simp: find_Some_iff)
  moreover from Some have "is_digit c" by (simp add: is_digit_def digit_value_def)
  ultimately show ?thesis by blast
qed

lemma digit_value_less: "digit_value c = Some d \<Longrightarrow> d < 10"
proof -
  assume a: "digit_value c = Some d"
  then obtain z where z: "find (\<lambda>z. z \<le> c \<and> c < z + 10) nd_starts = Some z" and d: "d = c - z"
    by (auto simp: digit_value_def split: option.splits)
  from z have "z \<le> c \<and> c < z + 10" by (auto simp: find_Some_iff)
  with d show ?thesis by linarith
qed

lemma nd_starts_ge: "\<forall>z\<in>set nd_starts. 0x30 \<le> z"
  by (simp add: nd_starts_def)

lemma is_digit_ge: "is_digit c \<Longrightarrow> 0x30 \<le> c"
  using nd_starts_ge by (auto simp: is_digit_iff)

lemma not_digit_consts:
  "\<not> is_digit 0x85" "\<not> is_digit 0xA0" "\<not> is_digit 0x1680" "\<not> is_digit 0x2000"
  "\<not> is_digit 0x2001" "\<not> is_digit 0x2002" "\<not> is_digit 0x2003" "\<not> is_digit 0x2004"
  "\<not> is_digit 0x2005" "\<not> is_digit 0x2006" "\<not> is_digit 0x2007" "\<not> is_digit 0x2008"
  "\<not> is_digit 0x2009" "\<not> is_digit 0x200A" "\<not> is_digit 0x2028" "\<not> is_digit 0x2029"
  "\<not> is_digit 0x202F" "\<not> is_digit 0x205F" "\<not> is_digit 0x3000" "\<not> is_digit 0x2212"
  "\<not> is_digit 0x5C"
  by (simp_all add: is_digit_def digit_value_def nd_starts_def)

lemma is_digit_not_space: "is_digit c \<Longrightarrow> \<not> is_space c"
proof
  assume d: "is_digit c" and s: "is_space c"
  from d have "0x30 \<le> c" by (rule is_digit_ge)
  with s have "c = 0x85 \<or> c = 0xA0 \<or> c = 0x1680 \<or> c = 0x2000 \<or> c = 0x2001 \<or> c = 0x2002 \<or>
      c = 0x2003 \<or> c = 0x2004 \<or> c = 0x2005 \<or> c = 0x2006 \<or> c = 0x2007 \<or> c = 0x2008 \<or>
      c = 0x2009 \<or> c = 0x200A \<or> c = 0x2028 \<or> c = 0x2029 \<or> c = 0x202F \<or> c = 0x205F \<or>
      c = 0x3000"
    unfolding is_space_def by arith
  with d not_digit_consts show False by auto
qed

lemma is_digit_not_special:
  assumes "is_digit c"
  shows "c \<noteq> HYPHEN" "c \<noteq> PLUS" "c \<noteq> DOT" "c \<noteq> COMMA" "c \<noteq> SLASH" "c \<noteq> DOLLAR"
    "c \<noteq> BACKSLASH" "c \<noteq> UMINUS"
  using assms is_digit_ge [of c] not_digit_consts by (auto simp: char_defs)

lemma is_space_not_special:
  assumes "is_space c"
  shows "c \<noteq> HYPHEN" "c \<noteq> PLUS" "c \<noteq> DOT" "c \<noteq> COMMA" "c \<noteq> SLASH" "c \<noteq> DOLLAR"
    "c \<noteq> BACKSLASH" "c \<noteq> UMINUS"
  using assms unfolding is_space_def char_defs by auto

lemma digit_step_simps:
  "digit_step None c = None"
  "digit_step (Some v) c = (case digit_value c of None \<Rightarrow> None | Some d \<Rightarrow> Some (10 * v + d))"
  by (simp_all add: digit_step_def)

lemma foldl_digit_step_None: "foldl digit_step None ds = None"
  by (induction ds) (simp_all add: digit_step_simps)

lemma foldl_digit_step_Some:
  "foldl digit_step (Some a) ds = Some v \<Longrightarrow>
     (\<forall>c\<in>set ds. is_digit c) \<and> v < (a + 1) * 10 ^ length ds"
proof (induction ds arbitrary: a)
  case Nil
  then show ?case by simp
next
  case (Cons c ds)
  show ?case
  proof (cases "digit_value c")
    case None
    with Cons.prems show ?thesis by (simp add: digit_step_simps foldl_digit_step_None)
  next
    case (Some d)
    with Cons.prems have "foldl digit_step (Some (10 * a + d)) ds = Some v"
      by (simp add: digit_step_simps)
    from Cons.IH [OF this] have ih: "\<forall>c\<in>set ds. is_digit c"
      and v: "v < (10 * a + d + 1) * 10 ^ length ds" by simp_all
    have "d < 10" using Some by (rule digit_value_less)
    then have "10 * a + d + 1 \<le> (a + 1) * 10" by simp
    then have "(10 * a + d + 1) * 10 ^ length ds \<le> (a + 1) * 10 * 10 ^ length ds"
      by (rule mult_le_mono1)
    with v have "v < (a + 1) * 10 * 10 ^ length ds" by (rule less_le_trans)
    then have "v < (a + 1) * 10 ^ length (c # ds)" by (simp only: length_Cons power_Suc mult.assoc)
    moreover have "is_digit c" using Some by (simp add: is_digit_def)
    ultimately show ?thesis using ih by simp
  qed
qed

lemma digits_value_SomeD:
  assumes "digits_value ds = Some v"
  shows "ds \<noteq> []" "\<forall>c\<in>set ds. is_digit c" "v < 10 ^ length ds"
proof -
  from assms show ne: "ds \<noteq> []" by (auto simp: digits_value_def split: if_splits)
  with assms have "foldl digit_step (Some 0) ds = Some v" by (simp add: digits_value_def)
  from foldl_digit_step_Some [OF this]
  show "\<forall>c\<in>set ds. is_digit c" "v < 10 ^ length ds" by simp_all
qed

lemma foldl_digit_step_exists:
  "\<forall>c\<in>set ds. is_digit c \<Longrightarrow> \<exists>v. foldl digit_step (Some a) ds = Some v"
proof (induction ds arbitrary: a)
  case Nil
  then show ?case by simp
next
  case (Cons c ds)
  then obtain d where "digit_value c = Some d" by (auto simp: is_digit_def)
  with Cons show ?case by (simp add: digit_step_simps)
qed

lemma digits_value_exists:
  "ds \<noteq> [] \<Longrightarrow> \<forall>c\<in>set ds. is_digit c \<Longrightarrow> \<exists>v. digits_value ds = Some v"
  using foldl_digit_step_exists [of ds 0] by (simp add: digits_value_def)

lemma takeWhile_digits:
  assumes "\<forall>c\<in>set ds. is_digit c" "rest = [] \<or> \<not> is_digit (hd rest)"
  shows "takeWhile is_digit (ds @ rest) = ds" "dropWhile is_digit (ds @ rest) = rest"
proof -
  have r: "takeWhile is_digit rest = []" "dropWhile is_digit rest = rest"
    using assms(2) by (cases rest; simp)+
  show "takeWhile is_digit (ds @ rest) = ds" using assms(1) r by (simp add: takeWhile_append2)
  show "dropWhile is_digit (ds @ rest) = rest" using assms(1) r by (simp add: dropWhile_append2)
qed


lemma replace_single_filter: "replace [c] [] s = filter (\<lambda>x. x \<noteq> c) s"
  by (induction s) auto

lemma length_replace_le:
  "old \<noteq> [] \<Longrightarrow> length new \<le> length old \<Longrightarrow> length (replace old new s) \<le> length s"
proof (induction old new s rule: replace.induct)
  case (1 old new)
  then show ?case by simp
next
  case (2 old new c cs)
  show ?case
  proof (cases "take (length old) (c # cs) = old")
    case True
    then have "length (take (length old) (c # cs)) = length old" by simp
    then have "length old \<le> length (c # cs)" by (simp only: length_take min_def split: if_splits)
    moreover have "length (replace old new (drop (length old) (c # cs))) \<le> length (c # cs) - length old"
      using 2 True by simp
    ultimately show ?thesis using 2 True by simp
  next
    case False
    with 2 show ?thesis by simp
  qed
qed

lemma length_strip_le: "length (strip s) \<le> length s"
  unfolding strip_def lstrip_def rstrip_def
  by (metis le_trans length_dropWhile_le length_rev)

lemma fullmatch_plain_digits:
  assumes "ds \<noteq> []" "\<forall>c\<in>set ds. is_digit c"
  shows "fullmatch_plain ds"
proof -
  obtain c cs where ds: "ds = c # cs" using assms(1) by (cases ds) auto
  then have "is_digit c" using assms(2) by simp
  then have c: "c \<noteq> HYPHEN" "c \<noteq> PLUS" by (rule is_digit_not_special)+
  have r: "(case ds of c # cs \<Rightarrow> if c = HYPHEN \<or> c = PLUS then cs else ds | [] \<Rightarrow> ds) = ds"
    using c by (simp add: ds)
  have tw: "takeWhile is_digit ds = ds" "dropWhile is_digit ds = []"
    using takeWhile_digits [OF assms(2), of "[]"] by simp_all
  show ?thesis using assms(1) unfolding fullmatch_plain_def Let_def r tw by simp
qed

lemma py_float_digits:
  assumes "digits_value ds = Some v"
  shows "py_float ds =
    Inr (case round_binary64 v 1 of None \<Rightarrow> Infinity False | Some m \<Rightarrow> Finite False m)"
proof -
  note d = digits_value_SomeD [OF assms]
  obtain c cs where ds: "ds = c # cs" using d(1) by (cases ds) auto
  then have "is_digit c" using d(2) by simp
  then have c: "c \<noteq> HYPHEN" "c \<noteq> PLUS" by (rule is_digit_not_special)+
  have nodot: "DOT \<notin> set ds" using d(2) is_digit_not_special(3) by blast
  then have tw: "takeWhile (\<lambda>c. c \<noteq> DOT) ds = ds" "dropWhile (\<lambda>c. c \<noteq> DOT) ds = []"
    by (auto simp: takeWhile_eq_all_conv dropWhile_eq_Nil_conv)
  have r: "(case ds of c # cs \<Rightarrow> if c = HYPHEN then (True, cs)
              else if c = PLUS then (False, cs) else (False, ds) | [] \<Rightarrow> (False, ds)) = (False, ds)"
    using c by (simp add: ds)
  show ?thesis
    unfolding py_float_def r using nodot assms by (simp add: tw split: option.splits)
qed

text \<open>What \<^verbatim>\<open>sanitize_answer\<close> does to a string with nothing to strip or rewrite in it.\<close>

lemma sanitize_answer_clean:
  assumes "a = [] \<or> (\<not> is_space (hd a) \<and> \<not> is_space (last a))"
    and "DOLLAR \<notin> set a" "BACKSLASH \<notin> set a" "UMINUS \<notin> set a"
  shows "replace [UMINUS] [HYPHEN] (replace [BACKSLASH, COMMA] [] (replace [DOLLAR] [] (strip a))) = a"
proof -
  have "strip a = a" using assms(1) by (rule strip_id)
  moreover have "replace [DOLLAR] [] a = a" using assms(2) by (intro replace_absent [of DOLLAR]) simp_all
  moreover have "replace [BACKSLASH, COMMA] [] a = a"
    using assms(3) by (intro replace_absent [of BACKSLASH]) simp_all
  moreover have "replace [UMINUS] [HYPHEN] a = a"
    using assms(4) by (intro replace_absent [of UMINUS]) simp_all
  ultimately show ?thesis by simp
qed

lemma sanitize_answer_commas:
  assumes cs: "\<forall>c\<in>set s. c = COMMA \<or> is_digit c"
    and v: "digits_value (filter (\<lambda>c. c \<noteq> COMMA) s) = Some v"
  shows "sanitize_answer (Some s) =
    Inr (Some (case round_binary64 v 1 of None \<Rightarrow> Infinity False | Some m \<Rightarrow> Finite False m))"
proof -
  define f where "f = filter (\<lambda>c. c \<noteq> COMMA) s"
  note d = digits_value_SomeD [OF v [folded f_def]]
  have nsp: "\<not> is_space c" if "c \<in> set s" for c
    using cs that is_digit_not_space is_space_not_special(4) by blast
  have nspec: "c \<noteq> DOLLAR \<and> c \<noteq> BACKSLASH \<and> c \<noteq> UMINUS" if "c \<in> set s" for c
    using cs that is_digit_not_special [of c] by (auto simp: char_defs)
  have "s \<noteq> []" using d(1) by (auto simp: f_def)
  then have "hd s \<in> set s" "last s \<in> set s" by simp_all
  then have 1: "s = [] \<or> (\<not> is_space (hd s) \<and> \<not> is_space (last s))" using nsp by blast
  have 2: "DOLLAR \<notin> set s" "BACKSLASH \<notin> set s" "UMINUS \<notin> set s" using nspec by blast+
  have clean: "replace [UMINUS] [HYPHEN] (replace [BACKSLASH, COMMA] [] (replace [DOLLAR] [] (strip s))) = s"
    using 1 2 by (rule sanitize_answer_clean)
  have plain: "replace [COMMA] [] s = f" by (simp add: replace_single_filter f_def)
  have m: "fullmatch_plain f" using d(1,2) by (rule fullmatch_plain_digits)
  show ?thesis
    using py_float_digits [OF v [folded f_def]] m
    by (simp add: sanitize_answer_def Let_def clean plain)
qed


lemma dropWhile_spaces:
  assumes "\<forall>c\<in>set ws. is_space c" "rest = [] \<or> \<not> is_space (hd rest)"
  shows "dropWhile is_space (ws @ rest) = rest"
proof -
  have "dropWhile is_space rest = rest" using assms(2) by (cases rest) simp_all
  then show ?thesis using assms(1) by (simp add: dropWhile_append2)
qed

lemma py_int_digits:
  assumes "digits_value ds = Some n"
  shows "py_int ((if neg then [HYPHEN] else []) @ ds) =
    (if int_max_str_digits < length ds then Inl ValueError
     else Inr (if neg then - int n else int n))"
proof (cases neg)
  case True
  then show ?thesis using assms by (simp add: py_int_def)
next
  case False
  note d = digits_value_SomeD [OF assms]
  obtain c cs where ds: "ds = c # cs" using d(1) by (cases ds) auto
  then have "is_digit c" using d(2) by simp
  then have c: "c \<noteq> HYPHEN" "c \<noteq> PLUS" by (rule is_digit_not_special)+
  have r: "(case ds of c # cs \<Rightarrow> if c = HYPHEN then (True, cs)
              else if c = PLUS then (False, cs) else (False, ds) | [] \<Rightarrow> (False, ds)) = (False, ds)"
    using c by (simp add: ds)
  have "py_int ds = (if int_max_str_digits < length ds then Inl ValueError else Inr (int n))"
    unfolding py_int_def r using assms by simp
  then show ?thesis using False by simp
qed

lemma sanitize_answer_fraction:
  assumes n: "digits_value ds1 = Some n" and d: "digits_value ds2 = Some d"
    and w1: "\<forall>c\<in>set ws1. is_space c" and w2: "\<forall>c\<in>set ws2. is_space c"
  shows "sanitize_answer (Some ((if neg then [HYPHEN] else []) @ ds1 @ ws1 @ SLASH # ws2 @ ds2)) =
    (if int_max_str_digits < length ds1 \<or> int_max_str_digits < length ds2 then Inl ValueError
     else if d = 0 then Inr None
     else case round_binary64 n d of
            None \<Rightarrow> Inl OverflowError
          | Some m \<Rightarrow> Inr (Some (Finite (neg \<and> n \<noteq> 0) m)))"
proof -
  define sg where "sg = (if neg then [HYPHEN] else [])"
  define rest where "rest = ws1 @ SLASH # ws2 @ ds2"
  define s where "s = sg @ ds1 @ rest"
  note D1 = digits_value_SomeD [OF n]
  note D2 = digits_value_SomeD [OF d]
  have nsp_h: "\<not> is_space HYPHEN" and nsp_s: "\<not> is_space SLASH"
    by (simp_all add: is_space_def char_defs)
  have nd_s: "\<not> is_digit SLASH" using is_digit_not_special(5) by blast
  have hd_ds1: "hd ds1 \<in> set ds1" and last_ds2: "last ds2 \<in> set ds2" and hd_ds2: "hd ds2 \<in> set ds2"
    using D1(1) D2(1) by simp_all
  have sne: "s \<noteq> []" using D1(1) by (simp add: s_def)
  have hd_s: "hd s = (if neg then HYPHEN else hd ds1)"
    using D1(1) by (simp add: s_def sg_def)
  have last_s: "last s = last ds2" using D2(1) by (simp add: s_def rest_def)
  have ends: "s = [] \<or> (\<not> is_space (hd s) \<and> \<not> is_space (last s))"
    using hd_s last_s nsp_h hd_ds1 last_ds2 D1(2) D2(2) is_digit_not_space by auto
  have kinds: "c = HYPHEN \<or> c = SLASH \<or> is_digit c \<or> is_space c" if "c \<in> set s" for c
    using that D1(2) D2(2) w1 w2 by (auto simp: s_def sg_def rest_def split: if_splits)
  have nspec: "c \<noteq> DOLLAR \<and> c \<noteq> BACKSLASH \<and> c \<noteq> UMINUS \<and> c \<noteq> COMMA" if "c \<in> set s" for c
    using kinds [OF that]
  proof (elim disjE)
    assume "is_digit c"
    from is_digit_not_special [OF this] show ?thesis by simp
  next
    assume "is_space c"
    from is_space_not_special [OF this] show ?thesis by simp
  qed (simp_all add: char_defs)
  have absent: "DOLLAR \<notin> set s" "BACKSLASH \<notin> set s" "UMINUS \<notin> set s" "COMMA \<notin> set s"
    using nspec by blast+
  have clean: "replace [UMINUS] [HYPHEN] (replace [BACKSLASH, COMMA] [] (replace [DOLLAR] [] (strip s))) = s"
    using ends absent(1-3) by (rule sanitize_answer_clean)
  have plain: "replace [COMMA] [] s = s" using absent(4) by (intro replace_absent [of COMMA]) simp_all
  have rest_hd: "rest = [] \<or> \<not> is_digit (hd rest)"
  proof (cases ws1)
    case Nil
    then show ?thesis using nd_s by (simp add: rest_def)
  next
    case (Cons c cs)
    then have "is_space c" using w1 by simp
    then show ?thesis using Cons is_digit_not_space by (auto simp: rest_def)
  qed
  have tw: "takeWhile is_digit (ds1 @ rest) = ds1" "dropWhile is_digit (ds1 @ rest) = rest"
    using takeWhile_digits [OF D1(2) rest_hd] by simp_all
  obtain c0 cs0 where ds1: "ds1 = c0 # cs0" using D1(1) by (cases ds1) auto
  then have "is_digit c0" using D1(2) by simp
  then have c0: "c0 \<noteq> HYPHEN" "c0 \<noteq> PLUS" by (rule is_digit_not_special)+
  have not_plain: "\<not> fullmatch_plain s"
  proof -
    have r: "(case s of c # cs \<Rightarrow> if c = HYPHEN \<or> c = PLUS then cs else s | [] \<Rightarrow> s) = ds1 @ rest"
      using c0 by (cases neg) (simp_all add: s_def sg_def ds1)
    obtain c fp where cf: "rest = c # fp" and "c \<noteq> DOT"
    proof (cases ws1)
      case Nil
      then show ?thesis using that [of SLASH "ws2 @ ds2"] by (simp add: rest_def char_defs)
    next
      case (Cons c cs)
      then have "is_space c" using w1 by simp
      then have "c \<noteq> DOT" by (rule is_space_not_special)
      then show ?thesis using that [of c "cs @ SLASH # ws2 @ ds2"] Cons by (simp add: rest_def)
    qed
    then show ?thesis unfolding fullmatch_plain_def Let_def r tw by simp
  qed
  have msd: "match_signed_digits s = Some (sg @ ds1, rest)"
  proof -
    have r: "(case s of c # cs \<Rightarrow> if c = HYPHEN then ([c], cs) else ([], s) | [] \<Rightarrow> ([], s))
        = (sg, ds1 @ rest)"
      using c0 by (cases neg) (simp_all add: s_def sg_def ds1)
    show ?thesis unfolding match_signed_digits_def r using D1(1) by (simp add: tw)
  qed
  have dw1: "dropWhile is_space rest = SLASH # ws2 @ ds2"
    unfolding rest_def using w1 nsp_s by (intro dropWhile_spaces) simp_all
  have dw2: "dropWhile is_space (ws2 @ ds2) = ds2"
    using w2 hd_ds2 D2(2) is_digit_not_space by (intro dropWhile_spaces) auto
  have frac: "fullmatch_fraction s = Some (sg @ ds1, ds2)"
    unfolding fullmatch_fraction_def msd option.case prod.case dw1 list.case Let_def dw2
    using D2(1,2) by (simp add: list_all_iff)
  have num: "py_int (sg @ ds1) =
      (if int_max_str_digits < length ds1 then Inl ValueError
       else Inr (if neg then - int n else int n))"
    unfolding sg_def using n by (rule py_int_digits)
  have den: "py_int ds2 = (if int_max_str_digits < length ds2 then Inl ValueError else Inr (int d))"
    using py_int_digits [OF d, of False] by simp
  have "sanitize_answer (Some s) =
    (if int_max_str_digits < length ds1 \<or> int_max_str_digits < length ds2 then Inl ValueError
     else if d = 0 then Inr None
     else case round_binary64 n d of
            None \<Rightarrow> Inl OverflowError
          | Some m \<Rightarrow> Inr (Some (Finite (neg \<and> n \<noteq> 0) m)))"
    by (auto simp: sanitize_answer_def Let_def clean plain not_plain frac num den py_true_div_def
        split: option.splits)
  then show ?thesis by (simp add: s_def sg_def rest_def)
qed

subsection \<open>Evaluating the sanitizer on concrete strings\<close>

lemma digit_value_ascii:
  "digit_value 0x30 = Some 0" "digit_value 0x31 = Some 1" "digit_value 0x32 = Some 2"
  "digit_value 0x33 = Some 3" "digit_value 0x34 = Some 4" "digit_value 0x35 = Some 5"
  "digit_value 0x36 = Some 6" "digit_value 0x37 = Some 7" "digit_value 0x38 = Some 8"
  "digit_value 0x39 = Some 9"
  by (simp_all add: digit_value_def nd_starts_def)

lemma is_digit_ascii:
  "is_digit 0x30" "is_digit 0x31" "is_digit 0x32" "is_digit 0x33" "is_digit 0x34"
  "is_digit 0x35" "is_digit 0x36" "is_digit 0x37" "is_digit 0x38" "is_digit 0x39"
  by (simp_all add: is_digit_def digit_value_ascii)

lemma not_digit_ascii:
  "\<not> is_digit 0x20" "\<not> is_digit 0x24" "\<not> is_digit 0x2B" "\<not> is_digit 0x2C" "\<not> is_digit 0x2D"
  "\<not> is_digit 0x2E" "\<not> is_digit 0x2F"
  by (auto dest: is_digit_ge)

lemma not_digit_letters: "\<not> is_digit 0x65" "\<not> is_digit 0x69"
  by (simp_all add: is_digit_def digit_value_def nd_starts_def)

lemmas answer_eval = sanitize_answer_def str_lit_def char_defs strip_def lstrip_def rstrip_def
  is_space_def match_signed_digits_def Let_def
  fullmatch_plain_def fullmatch_fraction_def py_float_def py_int_def int_max_str_digits_def
  py_true_div_def
  digits_value_def digit_step_def digit_value_ascii is_digit_ascii not_digit_ascii
  not_digit_letters not_digit_consts

lemmas round_eval = round_binary64_def ilog2_def round_half_even_def pow2_def compute_bitlen
  Let_def

lemma foldl_digit_step_zeros:
  "foldl digit_step (Some a) (replicate n 0x30) = Some (a * 10 ^ n)"
  by (induction n arbitrary: a) (simp_all add: digit_step_simps digit_value_ascii)

lemma digits_value_one_zeros: "digits_value (0x31 # replicate n 0x30) = Some (10 ^ n)"
  by (simp add: digits_value_def digit_step_simps digit_value_ascii foldl_digit_step_zeros)

lemma round_binary64_huge: "round_binary64 (10 ^ 309) 1 = None"
proof (rule round_binary64_overflow)
  show "0 < (1::nat)" by simp
  have "(2::rat) ^ 1024 \<le> 10 ^ 309" by simp
  then show "pow2 1024 \<le> ratio (10 ^ 309) 1" by (simp add: pow2_def ratio_def)
qed

text \<open>
  The candidate that the plain-number rule is applied to (\<^verbatim>\<open>s_plain\<close> in the source), and
  the magnitude of the number that a decimal spells: its digits, read without sign and
  point, over the power of ten that the point stands for.
\<close>

definition plain_candidate :: "pystr \<Rightarrow> pystr" where
  "plain_candidate a =
     replace [COMMA] []
       (replace [UMINUS] [HYPHEN] (replace [BACKSLASH, COMMA] [] (replace [DOLLAR] [] (strip a))))"

definition decimal_magnitude :: "pystr \<Rightarrow> rat" where
  "decimal_magnitude s =
     (let r = (case s of c # cs \<Rightarrow> if c = HYPHEN \<or> c = PLUS then cs else s | [] \<Rightarrow> s);
          ip = takeWhile (\<lambda>c. c \<noteq> DOT) r;
          fp = (case dropWhile (\<lambda>c. c \<noteq> DOT) r of [] \<Rightarrow> [] | c # cs \<Rightarrow> cs)
      in case digits_value (ip @ fp) of
           None \<Rightarrow> 0
         | Some v \<Rightarrow> ratio v (10 ^ length fp))"

lemma py_float_result:
  assumes "py_float t = Inr x"
  shows "x \<noteq> NaN"
    and "if decimal_magnitude t < pow2 1024 - pow2 970 then \<exists>neg m. x = Finite neg m
         else \<exists>neg. x = Infinity neg"
proof -
  obtain neg r where nr: "(case t of
                        c # cs \<Rightarrow> if c = HYPHEN then (True, cs)
                                  else if c = PLUS then (False, cs) else (False, t)
                      | [] \<Rightarrow> (False, t)) = (neg, r)"
    by fastforce
  have r: "(case t of c # cs \<Rightarrow> if c = HYPHEN \<or> c = PLUS then cs else t | [] \<Rightarrow> t) = r"
    using nr by (auto split: list.splits if_splits)
  define ip where "ip = takeWhile (\<lambda>c. c \<noteq> DOT) r"
  define fp where "fp = (case dropWhile (\<lambda>c. c \<noteq> DOT) r of [] \<Rightarrow> [] | c # cs \<Rightarrow> cs)"
  from assms have "(if DOT \<in> set r \<and> fp = [] then Inl ValueError
         else case digits_value (ip @ fp) of
                None \<Rightarrow> Inl ValueError
              | Some v \<Rightarrow>
                  (case round_binary64 v (10 ^ length fp) of
                     None \<Rightarrow> Inr (Infinity neg)
                   | Some m \<Rightarrow> Inr (Finite neg m))) = Inr x"
    unfolding py_float_def nr ip_def fp_def by (simp only: Let_def prod.case)
  then obtain v where v: "digits_value (ip @ fp) = Some v"
    and x: "x = (case round_binary64 v (10 ^ length fp) of
                     None \<Rightarrow> Infinity neg | Some m \<Rightarrow> Finite neg m)"
    by (auto split: if_splits option.splits)
  show "x \<noteq> NaN" using x by (simp split: option.splits)
  have dm: "decimal_magnitude t = ratio v (10 ^ length fp)"
    unfolding decimal_magnitude_def r using v by (simp add: Let_def ip_def fp_def)
  have "0 < (10::nat) ^ length fp" by simp
  then have "round_binary64 v (10 ^ length fp) = None
      \<longleftrightarrow> pow2 1024 - pow2 970 \<le> ratio v (10 ^ length fp)"
    by (rule round_binary64_None_iff)
  then show "if decimal_magnitude t < pow2 1024 - pow2 970 then \<exists>neg m. x = Finite neg m
         else \<exists>neg. x = Infinity neg"
    unfolding dm x by (cases "round_binary64 v (10 ^ length fp)") auto
qed

section \<open>Claims about \<^verbatim>\<open>sanitize_answer\<close>\<close>

text \<open>
  Claim C10. \<^verbatim>\<open>sanitize_answer\<close> takes every comma out of the candidate, wherever it stands,
  before the plain-number rule is applied: a string \<open>s\<close> of digits and commas (in any
  arrangement, with at least one digit) gives what the string without its commas gives,
  the float nearest to the number \<open>v\<close> that the remaining digits spell. So
  \<^verbatim>\<open>"1,2,3"\<close> parses to \<^verbatim>\<open>123.0\<close>.
\<close>

theorem sanitize_answer_removes_commas:
  assumes "\<forall>c\<in>set s. c = COMMA \<or> is_digit c"
    and "digits_value (filter (\<lambda>c. c \<noteq> COMMA) s) = Some v"
  shows "sanitize_answer (Some s) = sanitize_answer (Some (filter (\<lambda>c. c \<noteq> COMMA) s)) \<and>
    sanitize_answer (Some s) =
      Inr (Some (case round_binary64 v 1 of None \<Rightarrow> Infinity False | Some m \<Rightarrow> Finite False m))"
proof -
  define f where "f = filter (\<lambda>c. c \<noteq> COMMA) s"
  have 1: "\<forall>c\<in>set f. c = COMMA \<or> is_digit c" using assms(1) by (auto simp: f_def)
  have 2: "digits_value (filter (\<lambda>c. c \<noteq> COMMA) f) = Some v" using assms(2) by (simp add: f_def)
  show ?thesis
    using sanitize_answer_commas [OF assms] sanitize_answer_commas [OF 1 2]
    by (simp add: f_def)
qed

theorem sanitize_answer_removes_commas_witness:
  "digits_value (filter (\<lambda>c. c \<noteq> COMMA) (str_lit ''1,2,3'')) = Some 123 \<and>
   sanitize_answer (Some (str_lit ''1,2,3'')) = sanitize_answer (Some (str_lit ''123'')) \<and>
   sanitize_answer (Some (str_lit ''1,2,3'')) = Inr (Some (Finite False 123))"
proof -
  have 1: "\<forall>c\<in>set (str_lit ''1,2,3''). c = COMMA \<or> is_digit c"
    by (simp add: str_lit_def is_digit_ascii char_defs)
  have 2: "digits_value (filter (\<lambda>c. c \<noteq> COMMA) (str_lit ''1,2,3'')) = Some 123"
    by (simp add: str_lit_def digits_value_def digit_step_def digit_value_ascii char_defs)
  have 3: "round_binary64 123 1 = Some 123"
    by (simp add: round_eval)
  have 4: "filter (\<lambda>c. c \<noteq> COMMA) (str_lit ''1,2,3'') = str_lit ''123''"
    by (simp add: str_lit_def char_defs)
  from sanitize_answer_removes_commas [OF 1 2, unfolded 3 4] 2 show ?thesis
    unfolding option.case by blast
qed

text \<open>
  Claim C7, as stated: every number that \<^verbatim>\<open>sanitize_answer\<close> returns is finite, also for
  very long digit strings. A one followed by 309 zeros matches the plain-number rule, and
  \<^verbatim>\<open>float\<close> of it is \<^verbatim>\<open>inf\<close>.
\<close>

theorem sanitize_answer_long_digits_counterexample:
  "sanitize_answer (Some (0x31 # replicate 309 0x30)) = Inr (Some (Infinity False))"
proof -
  define s :: pystr where "s = 0x31 # replicate 309 0x30"
  have d: "\<forall>c\<in>set s. is_digit c"
    by (auto simp: s_def is_digit_ascii)
  then have 1: "\<forall>c\<in>set s. c = COMMA \<or> is_digit c" by simp
  have "filter (\<lambda>c. c \<noteq> COMMA) s = s"
    using d is_digit_not_special(4) by (auto simp: filter_id_conv)
  then have 2: "digits_value (filter (\<lambda>c. c \<noteq> COMMA) s) = Some (10 ^ 309)"
    by (simp add: s_def digits_value_one_zeros)
  from sanitize_answer_commas [OF 1 2, unfolded round_binary64_huge] show ?thesis
    by (simp add: s_def)
qed


text \<open>
  Claim C3, as stated: for every string of the form integer slash integer with a non-zero
  denominator, \<^verbatim>\<open>sanitize_answer\<close> returns the quotient as a float. With a numerator of
  a one and 309 zeros over the denominator 1 the quotient is too large for a float:
  \<^verbatim>\<open>num / den\<close> raises \<^verbatim>\<open>OverflowError\<close> and \<^verbatim>\<open>sanitize_answer\<close> returns nothing.
\<close>

theorem sanitize_answer_fraction_overflow_counterexample:
  "sanitize_answer (Some (0x31 # replicate 309 0x30 @ [SLASH, 0x31])) = Inl OverflowError"
proof -
  have 1: "digits_value [0x31] = Some 1"
    using digits_value_one_zeros [of 0] by simp
  have e: "\<forall>c\<in>set []. is_space c" by simp
  from sanitize_answer_fraction [OF digits_value_one_zeros [of 309] 1 e e, of False,
      unfolded round_binary64_huge]
  show ?thesis by (simp add: int_max_str_digits_def)
qed

text \<open>
  Claim C3, amended. For a string made of an optional minus sign, digits \<open>ds1\<close> spelling
  \<open>n\<close>, whitespace, a slash, whitespace and digits \<open>ds2\<close> spelling \<open>d\<close>: when the numerator
  or the denominator has more than 4300 digits, \<^verbatim>\<open>int\<close> raises \<^verbatim>\<open>ValueError\<close>; otherwise, when
  \<open>d\<close> is zero the result is \<^verbatim>\<open>None\<close>; otherwise it is the float nearest to \<open>n / d\<close>,
  negative when the sign is there (and \<open>n\<close> is not zero), unless that lies beyond the
  largest finite float, which is exactly when \<open>n / d\<close> is at least \<open>2\<^sup>1\<^sup>0\<^sup>2\<^sup>4 - 2\<^sup>9\<^sup>7\<^sup>0\<close>, and then
  \<^verbatim>\<open>OverflowError\<close> is raised. The fraction pattern is matched against the string before
  the commas are removed: \<^verbatim>\<open>"1,000/2"\<close> is unparseable.
\<close>

theorem sanitize_answer_fraction_rule:
  assumes "digits_value ds1 = Some n" and "digits_value ds2 = Some d"
    and "\<forall>c\<in>set ws1. is_space c" and "\<forall>c\<in>set ws2. is_space c"
  shows "sanitize_answer (Some ((if neg then [HYPHEN] else []) @ ds1 @ ws1 @ SLASH # ws2 @ ds2)) =
    (if 4300 < length ds1 \<or> 4300 < length ds2 then Inl ValueError
     else if d = 0 then Inr None
     else case round_binary64 n d of
            None \<Rightarrow> Inl OverflowError
          | Some m \<Rightarrow> Inr (Some (Finite (neg \<and> n \<noteq> 0) m)))
    \<and> (0 < d \<longrightarrow> (round_binary64 n d = None \<longleftrightarrow> pow2 1024 - pow2 970 \<le> ratio n d))
    \<and> sanitize_answer (Some (str_lit ''1,000/2'')) = Inr None"
proof (intro conjI impI)
  show "sanitize_answer (Some ((if neg then [HYPHEN] else []) @ ds1 @ ws1 @ SLASH # ws2 @ ds2)) =
    (if 4300 < length ds1 \<or> 4300 < length ds2 then Inl ValueError
     else if d = 0 then Inr None
     else case round_binary64 n d of
            None \<Rightarrow> Inl OverflowError
          | Some m \<Rightarrow> Inr (Some (Finite (neg \<and> n \<noteq> 0) m)))"
    using sanitize_answer_fraction [OF assms] by (simp only: int_max_str_digits_def)
  show "round_binary64 n d = None \<longleftrightarrow> pow2 1024 - pow2 970 \<le> ratio n d" if "0 < d"
    using that by (rule round_binary64_None_iff)
  show "sanitize_answer (Some (str_lit ''1,000/2'')) = Inr None"
    by (simp add: answer_eval)
qed

theorem sanitize_answer_fraction_rule_witness:
  "digits_value (str_lit ''7'') = Some 7 \<and> digits_value (str_lit ''2'') = Some 2 \<and>
   sanitize_answer (Some (str_lit ''-7 / 2'')) = Inr (Some (Finite True (7 / 2))) \<and>
   sanitize_answer (Some (str_lit ''7/0'')) = Inr None"
proof -
  have 7: "digits_value (str_lit ''7'') = Some 7" and 2: "digits_value (str_lit ''2'') = Some 2"
    and 0: "digits_value (str_lit ''0'') = Some 0"
    by (simp_all add: str_lit_def digits_value_def digit_step_def digit_value_ascii)
  have sp: "\<forall>c\<in>set (str_lit '' ''). is_space c" by (simp add: str_lit_def is_space_def)
  have e: "\<forall>c\<in>set []. is_space c" by simp
  have r: "round_binary64 7 2 = Some (7 / 2)"
    by (simp add: round_eval)
  from sanitize_answer_fraction_rule [OF 7 2 sp sp, of True, unfolded r, THEN conjunct1]
  have a: "sanitize_answer (Some (str_lit ''-7 / 2'')) = Inr (Some (Finite True (7 / 2)))"
    by (simp add: str_lit_def char_defs)
  from sanitize_answer_fraction_rule [OF 7 0 e e, of False, THEN conjunct1]
  have b: "sanitize_answer (Some (str_lit ''7/0'')) = Inr None"
    by (simp add: str_lit_def char_defs)
  from 7 2 a b show ?thesis by blast
qed

text \<open>
  Claim C7, amended. A number returned by \<^verbatim>\<open>sanitize_answer\<close> is never NaN. The fraction
  rule returns finite floats only. The plain-number rule returns a finite float exactly
  when the magnitude of the decimal is below \<open>2\<^sup>1\<^sup>0\<^sup>2\<^sup>4 - 2\<^sup>9\<^sup>7\<^sup>0\<close> (the decimals that round to a
  finite float), and an infinity for every larger one.
\<close>

theorem sanitize_answer_finite:
  assumes "sanitize_answer (Some a) = Inr (Some x)"
  shows "x \<noteq> NaN \<and>
    (if fullmatch_plain (plain_candidate a)
     then (if decimal_magnitude (plain_candidate a) < pow2 1024 - pow2 970
           then \<exists>neg m. x = Finite neg m
           else \<exists>neg. x = Infinity neg)
     else \<exists>neg m. x = Finite neg m)"
proof -
  define s where "s = replace [UMINUS] [HYPHEN]
                     (replace [BACKSLASH, COMMA] [] (replace [DOLLAR] [] (strip a)))"
  define s_plain where "s_plain = replace [COMMA] [] s"
  have pc: "plain_candidate a = s_plain"
    by (simp add: plain_candidate_def s_plain_def s_def)
  show ?thesis
  proof (cases "fullmatch_plain s_plain")
    case True
    with assms have "py_float s_plain = Inr x"
      by (simp add: sanitize_answer_def Let_def s_def [symmetric] s_plain_def [symmetric]
          split: sum.splits)
    from py_float_result [OF this] True show ?thesis by (simp only: pc if_True simp_thms)
  next
    case False
    with assms obtain num den where "py_true_div num den = Inr x"
      by (auto simp: sanitize_answer_def Let_def s_def [symmetric] s_plain_def [symmetric]
          split: sum.splits option.splits if_splits)
    then obtain neg m where "x = Finite neg m"
      by (auto simp: py_true_div_def split: if_splits option.splits)
    then show ?thesis using False by (simp add: pc)
  qed
qed

theorem sanitize_answer_finite_witness:
  "sanitize_answer (Some (str_lit ''$3,400'')) = Inr (Some (Finite False 3400)) \<and>
   plain_candidate (str_lit ''$3,400'') = str_lit ''3400'' \<and>
   fullmatch_plain (str_lit ''3400'') \<and>
   decimal_magnitude (str_lit ''3400'') < pow2 1024 - pow2 970"
proof -
  have e: "sanitize_answer (Some (str_lit ''$3,400'')) = Inr (Some (Finite False 3400))"
    by (simp add: answer_eval round_eval)
  have p: "plain_candidate (str_lit ''$3,400'') = str_lit ''3400''"
    by (simp add: plain_candidate_def str_lit_def char_defs strip_def lstrip_def rstrip_def
        is_space_def)
  have m: "fullmatch_plain (str_lit ''3400'')"
    by (simp add: fullmatch_plain_def str_lit_def char_defs is_digit_ascii)
  from sanitize_answer_finite [OF e, unfolded p] m
  have "decimal_magnitude (str_lit ''3400'') < pow2 1024 - pow2 970"
    by (auto split: if_splits)
  with e p m show ?thesis by blast
qed

section \<open>Building the prompt\<close>

definition COLON :: nat where "COLON = 0x3A"
definition BANG :: nat where "BANG = 0x21"
definition LBRACKET :: nat where "LBRACKET = 0x5B"
definition RBRACKET :: nat where "RBRACKET = 0x5D"

text \<open>\<^verbatim>\<open>str(n)\<close> for an integer: its decimal digits, with a minus sign when negative.\<close>

function nat_digits :: "nat \<Rightarrow> pystr" where
  "nat_digits n = (if n < 10 then [0x30 + n] else nat_digits (n div 10) @ [0x30 + n mod 10])"
  by pat_completeness auto
termination
  by (relation "measure id") auto

declare nat_digits.simps [simp del]

definition py_str_int :: "int \<Rightarrow> pystr" where
  "py_str_int i = (if i < 0 then HYPHEN # nat_digits (nat (- i)) else nat_digits (nat i))"

text \<open>
  The arguments that the source passes to \<^verbatim>\<open>format\<close>: an integer and a string. A field
  with an empty format specification is filled with \<^verbatim>\<open>str\<close> of its value, and \<^verbatim>\<open>str\<close> of
  an integer of more than \<^verbatim>\<open>sys.int_max_str_digits\<close> digits raises \<^verbatim>\<open>ValueError\<close>.
\<close>

datatype pyval = PyInt int | PyStr pystr

definition py_str :: "pyval \<Rightarrow> exn + pystr" where
  "py_str v =
     (case v of
        PyStr s \<Rightarrow> Inr s
      | PyInt i \<Rightarrow> if int_max_str_digits < length (nat_digits (nat \<bar>i\<bar>)) then Inl ValueError
                   else Inr (py_str_int i))"

text \<open>The template of the source, character by character (\<open>0xA\<close> is the newline).\<close>

definition PROMPT_TEMPLATE :: pystr where
  "PROMPT_TEMPLATE =
    [0xA] @ str_lit ''You are a math problem generator for a Grade 3 educational game.'' @
    [0xA] @
    str_lit ''Generate {count} unique math word problems for {operation}, where {operation} is one of: Addition, Substraction, Multiplication, Division.'' @
    [0xA, 0xA] @ str_lit ''Each problem must:'' @ [0xA] @
    str_lit ''- Be written as a short word problem suitable for Grade 3 students.'' @
    [0xA] @ str_lit ''- Have a single correct numeric answer.'' @ [0xA] @
    str_lit ''- Use simple, everyday contexts (candies, apples, toys, kids, etc.).'' @
    [0xA] @ str_lit ''- Keep numbers reasonable (within 1'' @ [0x2013] @
    str_lit ''100).'' @ [0xA] @
    str_lit ''- No fractions, decimals, or negative results.'' @ [0xA] @
    str_lit ''- Output in strict JSON with the format:'' @ [0xA, 0xA] @ str_lit ''{'' @
    [0xA] @ str_lit ''  '' @ [0x22] @ str_lit ''Questions'' @ [0x22] @ str_lit '': ['' @
    [0xA] @ str_lit ''    {'' @ [0xA] @ str_lit ''      '' @ [0x22] @ str_lit ''Text'' @
    [0x22] @ str_lit '': '' @ [0x22] @ str_lit ''<word problem text>'' @ [0x22] @
    str_lit '','' @ [0xA] @ str_lit ''      '' @ [0x22] @ str_lit ''Operation'' @ [0x22] @
    str_lit '': '' @ [0x22] @ str_lit ''{operation}'' @ [0x22] @ str_lit '','' @ [0xA] @
    str_lit ''      '' @ [0x22] @ str_lit ''status'' @ [0x22] @ str_lit '': '' @ [0x22] @
    str_lit ''Available'' @ [0x22] @ str_lit '','' @ [0xA] @ str_lit ''      '' @ [0x22] @
    str_lit ''Answer'' @ [0x22] @ str_lit '': <numeric answer>'' @ [0xA] @
    str_lit ''    }'' @ [0xA] @ str_lit ''  ]'' @ [0xA] @ str_lit ''}'' @ [0xA]"

text \<open>
  \<^verbatim>\<open>template.format(**kwargs)\<close>, as CPython's formatter does it: the template is read
  from the left; \<^verbatim>\<open>{{\<close> and \<^verbatim>\<open>}}\<close> stand for one brace; any other \<^verbatim>\<open>{\<close> opens a
  replacement field, whose name runs to the first \<^verbatim>\<open>}\<close>, \<^verbatim>\<open>:\<close> or \<^verbatim>\<open>!\<close> and whose format
  specification, after a colon, runs to the matching \<^verbatim>\<open>}\<close>; the name is then looked up,
  which raises \<^verbatim>\<open>KeyError\<close> for a name that was not passed, and the value is formatted.
  What this source never reaches (conversions, a non-empty format specification,
  attribute and index lookups) is answered by \<open>Raised ''beyond this model''\<close>.
\<close>

function scan_field_name :: "pystr \<Rightarrow> exn + (pystr \<times> pystr)" where
  "scan_field_name [] = Inl ValueError"
| "scan_field_name (c # cs) =
     (if c = LBRACE then Inl ValueError
      else if c = RBRACE \<or> c = COLON \<or> c = BANG then Inr ([], c # cs)
      else if c = LBRACKET
      then (case scan_field_name (dropWhile (\<lambda>x. x \<noteq> RBRACKET) cs) of
              Inl e \<Rightarrow> Inl e
            | Inr (name, rest) \<Rightarrow> Inr (c # takeWhile (\<lambda>x. x \<noteq> RBRACKET) cs @ name, rest))
      else (case scan_field_name cs of
              Inl e \<Rightarrow> Inl e
            | Inr (name, rest) \<Rightarrow> Inr (c # name, rest)))"
  by pat_completeness auto
termination
  by (relation "measure length") (auto intro: le_imp_less_Suc length_dropWhile_le)

fun scan_format_spec :: "nat \<Rightarrow> pystr \<Rightarrow> exn + (pystr \<times> pystr)" where
  "scan_format_spec depth [] = Inl ValueError"
| "scan_format_spec depth (c # cs) =
     (if c = RBRACE \<and> depth = 0 then Inr ([], cs)
      else (case scan_format_spec
                   (if c = LBRACE then depth + 1 else if c = RBRACE then depth - 1 else depth) cs of
              Inl e \<Rightarrow> Inl e
            | Inr (spec, rest) \<Rightarrow> Inr (c # spec, rest)))"

definition lookup_field :: "pystr \<Rightarrow> (pystr \<times> pyval) list \<Rightarrow> exn + pyval" where
  "lookup_field name kwargs =
     (let first = takeWhile (\<lambda>c. c \<noteq> DOT \<and> c \<noteq> LBRACKET) name
      in if list_all is_digit first then Inl IndexError
         else (case map_of kwargs first of
                 None \<Rightarrow> Inl (KeyError first)
               | Some v \<Rightarrow> if first = name then Inr v else Inl (Raised ''beyond this model'')))"

text \<open>One replacement field, read after its opening brace: its value and what follows it.\<close>

definition format_field :: "pystr \<Rightarrow> (pystr \<times> pyval) list \<Rightarrow> exn + (pystr \<times> pystr)" where
  "format_field s kwargs =
     (case scan_field_name s of
        Inl e \<Rightarrow> Inl e
      | Inr (name, r) \<Rightarrow>
          (case r of
             [] \<Rightarrow> Inl ValueError
           | t # r' \<Rightarrow>
               if t = BANG then Inl (Raised ''beyond this model'')
               else (case (if t = COLON then scan_format_spec 0 r' else Inr ([], r')) of
                       Inl e \<Rightarrow> Inl e
                     | Inr (spec, rest) \<Rightarrow>
                         (case lookup_field name kwargs of
                            Inl e \<Rightarrow> Inl e
                          | Inr v \<Rightarrow>
                              if spec = []
                              then (case py_str v of
                                      Inl e \<Rightarrow> Inl e
                                    | Inr t \<Rightarrow> Inr (t, rest))
                              else Inl (Raised ''beyond this model'')))))"

lemma scan_field_name_length:
  "scan_field_name s = Inr (name, rest) \<Longrightarrow> length rest \<le> length s"
proof (induction s arbitrary: name rest rule: scan_field_name.induct)
  case 1
  then show ?case by simp
next
  case (2 c cs)
  have "length (dropWhile (\<lambda>x. x \<noteq> RBRACKET) cs) \<le> length cs" by (rule length_dropWhile_le)
  with 2 show ?case
    by (fastforce split: if_splits sum.splits prod.splits)
qed

lemma scan_format_spec_length:
  "scan_format_spec depth s = Inr (spec, rest) \<Longrightarrow> length rest < length s"
  by (induction depth s arbitrary: spec rest rule: scan_format_spec.induct)
     (fastforce split: if_splits sum.splits prod.splits)+

lemma format_field_length:
  "format_field s kwargs = Inr (v, rest) \<Longrightarrow> length rest < length s"
  unfolding format_field_def
  by (auto split: sum.splits prod.splits list.splits if_splits
      dest!: scan_field_name_length scan_format_spec_length)

function py_format :: "pystr \<Rightarrow> (pystr \<times> pyval) list \<Rightarrow> exn + pystr" where
  "py_format [] kwargs = Inr []"
| "py_format (c # cs) kwargs =
     (if c = LBRACE
      then (case cs of
              [] \<Rightarrow> Inl ValueError
            | d # ds \<Rightarrow>
                if d = LBRACE
                then (case py_format ds kwargs of Inl e \<Rightarrow> Inl e | Inr out \<Rightarrow> Inr (LBRACE # out))
                else (case format_field cs kwargs of
                        Inl e \<Rightarrow> Inl e
                      | Inr (v, rest) \<Rightarrow>
                          (case py_format rest kwargs of
                             Inl e \<Rightarrow> Inl e
                           | Inr out \<Rightarrow> Inr (v @ out))))
      else if c = RBRACE
      then (case cs of
              [] \<Rightarrow> Inl ValueError
            | d # ds \<Rightarrow>
                if d = RBRACE
                then (case py_format ds kwargs of Inl e \<Rightarrow> Inl e | Inr out \<Rightarrow> Inr (RBRACE # out))
                else Inl ValueError)
      else (case py_format cs kwargs of Inl e \<Rightarrow> Inl e | Inr out \<Rightarrow> Inr (c # out)))"
  by pat_completeness auto
termination
  by (relation "measure (\<lambda>(s, kwargs). length s)") (auto dest: format_field_length)


section \<open>The question sources\<close>

text \<open>
  What \<^verbatim>\<open>json.loads\<close> returns and what the question list holds: Python values as far as
  JSON has them. A \<^verbatim>\<open>dict\<close> is the list of its items, each key once.
\<close>

datatype json = JNull | JBool bool | JInt int | JFloat pyfloat | JString pystr
  | JArray "json list" | JObject "(pystr \<times> json) list"

text \<open>
  What the program takes from outside. \<open>use_openai\<close> is the flag \<^verbatim>\<open>USE_OPENAI\<close> (whether the
  credential is set). \<open>chat_create\<close> is the request of lines 44 to 49: the content of the
  reply (which may be \<^verbatim>\<open>None\<close>), or the exception that the client or the access to
  \<^verbatim>\<open>choices[0].message.content\<close> raises. \<open>json_loads\<close> is \<^verbatim>\<open>json.loads\<close>. \<open>op_func\<close> gives the
  result of the \<open>k\<close>-th call of the generator function of an operation: a raw text and a
  raw answer, or an exception.
\<close>

record env =
  use_openai :: bool
  chat_create :: "pystr \<Rightarrow> exn + pystr option"
  json_loads :: "pystr \<Rightarrow> exn + json"
  op_func :: "pystr \<Rightarrow> nat \<Rightarrow> exn + (pystr option \<times> pystr option)"

text \<open>\<^verbatim>\<open>d.get(key, default)\<close>\<close>

definition dict_get :: "(pystr \<times> json) list \<Rightarrow> pystr \<Rightarrow> json \<Rightarrow> json" where
  "dict_get d key dflt = (case map_of d key of None \<Rightarrow> dflt | Some v \<Rightarrow> v)"

text \<open>
  \<^verbatim>\<open>fetch_questions_openai\<close>. The prompt is built by \<^verbatim>\<open>PROMPT_TEMPLATE.format\<close> from the
  count and the operation. The prompt and the request come before the \<^verbatim>\<open>try\<close>, so
  their exceptions leave the function (\<open>Inl\<close>). Inside the \<^verbatim>\<open>try\<close>, \<^verbatim>\<open>json.loads\<close> may
  raise (also \<^verbatim>\<open>TypeError\<close> on \<^verbatim>\<open>None\<close>), and \<^verbatim>\<open>data.get\<close> raises \<^verbatim>\<open>AttributeError\<close> on
  anything but a \<^verbatim>\<open>dict\<close>; both are caught and give the empty list.
\<close>

definition fetch_questions_openai :: "env \<Rightarrow> pystr \<Rightarrow> int \<Rightarrow> exn + json" where
  "fetch_questions_openai env operation count =
     (case py_format PROMPT_TEMPLATE
             [(str_lit ''count'', PyInt count), (str_lit ''operation'', PyStr operation)] of
        Inl e \<Rightarrow> Inl e
      | Inr prompt \<Rightarrow>
          (case chat_create env prompt of
             Inl e \<Rightarrow> Inl e
           | Inr None \<Rightarrow> Inr (JArray [])
           | Inr (Some content) \<Rightarrow>
               (case json_loads env content of
                  Inl e \<Rightarrow> Inr (JArray [])
                | Inr (JObject d) \<Rightarrow> Inr (dict_get d (str_lit ''Questions'') (JArray []))
                | Inr _ \<Rightarrow> Inr (JArray []))))"

text \<open>
  \<^verbatim>\<open>all_questions.extend(qs)\<close>: a list gives its elements, a string its characters, a
  \<^verbatim>\<open>dict\<close> its keys; anything else is not iterable (\<^verbatim>\<open>TypeError\<close>).
\<close>

definition list_extend :: "json list \<Rightarrow> json \<Rightarrow> exn + json list" where
  "list_extend xs qs =
     (case qs of
        JArray ys \<Rightarrow> Inr (xs @ ys)
      | JString s \<Rightarrow> Inr (xs @ map (\<lambda>c. JString [c]) s)
      | JObject d \<Rightarrow> Inr (xs @ map (\<lambda>(k, v). JString k) d)
      | _ \<Rightarrow> Inl TypeError)"

definition operations :: "pystr list" where
  "operations = [str_lit ''Addition'', str_lit ''Substraction'', str_lit ''Multiplication'',
                 str_lit ''Division'']"

text \<open>The loop of lines 103 to 105, with \<^verbatim>\<open>all_questions\<close> as accumulator.\<close>

fun remote_loop :: "env \<Rightarrow> int \<Rightarrow> pystr list \<Rightarrow> json list \<Rightarrow> exn + json list" where
  "remote_loop env per_op [] all_questions = Inr all_questions"
| "remote_loop env per_op (op # ops) all_questions =
     (case fetch_questions_openai env op per_op of
        Inl e \<Rightarrow> Inl e
      | Inr qs \<Rightarrow>
          (case list_extend all_questions qs of
             Inl e \<Rightarrow> Inl e
           | Inr all_questions' \<Rightarrow> remote_loop env per_op ops all_questions'))"

text \<open>
  One pass of the inner loop of lines 110 to 126, on the state \<open>(all_questions, skipped)\<close>.
  Every exception inside the \<^verbatim>\<open>try\<close> is caught: of the generator, and of the sanitizers.
\<close>

definition local_step :: "env \<Rightarrow> pystr \<Rightarrow> json list \<times> nat \<Rightarrow> nat \<Rightarrow> json list \<times> nat" where
  "local_step env op st k =
     (case st of (all_questions, skipped) \<Rightarrow>
        (case op_func env op k of
           Inl ex \<Rightarrow> (all_questions, skipped + 1)
         | Inr (q_text, q_answer) \<Rightarrow>
             (let txt = sanitize_text q_text
              in case sanitize_answer q_answer of
                   Inl ex \<Rightarrow> (all_questions, skipped + 1)
                 | Inr None \<Rightarrow> (all_questions, skipped + 1)
                 | Inr (Some ans) \<Rightarrow>
                     (all_questions @
                        [JObject [(str_lit ''Text'', JString txt),
                                  (str_lit ''Operation'', JString op),
                                  (str_lit ''status'', JString (str_lit ''Available'')),
                                  (str_lit ''Answer'', JFloat ans)]],
                      skipped))))"

definition local_loop :: "env \<Rightarrow> int \<Rightarrow> json list \<times> nat" where
  "local_loop env per_op =
     foldl (\<lambda>st op. foldl (local_step env op) st [0..<nat per_op]) ([], 0) operations"

text \<open>\<^verbatim>\<open>generate_questions\<close>: the returned \<^verbatim>\<open>dict\<close>, or the exception that leaves it.\<close>

definition generate_questions :: "env \<Rightarrow> int \<Rightarrow> exn + json" where
  "generate_questions env per_op =
     (if use_openai env
      then (case remote_loop env per_op operations [] of
              Inl e \<Rightarrow> Inl e
            | Inr all_questions \<Rightarrow> Inr (JObject [(str_lit ''Questions'', JArray all_questions)]))
      else Inr (JObject [(str_lit ''Questions'', JArray (fst (local_loop env per_op)))]))"


subsection \<open>Facts about the two sources\<close>






lemma not_digit_fmt: "\<not> is_digit 0x63" "\<not> is_digit 0x6F" "\<not> is_digit 0x0A"
  by (simp_all add: is_digit_def digit_value_def nd_starts_def)

lemma py_str_PyStr: "py_str (PyStr s) = Inr s"
  by (simp add: py_str_def)

lemmas format_eval = PROMPT_TEMPLATE_def str_lit_def char_defs COLON_def BANG_def LBRACKET_def
  RBRACKET_def format_field_def lookup_field_def not_digit_fmt py_str_PyStr

text \<open>
  The template of the source cannot be filled in: the braces of its JSON example are not
  doubled, so the example is read as a replacement field whose name, a newline, two
  spaces and \<^verbatim>\<open>"Questions"\<close>, is not among the arguments. The fields before it are
  \<^verbatim>\<open>{count}\<close> and \<^verbatim>\<open>{operation}\<close>; they are filled in first, and only a count too long to be
  written out raises before the \<^verbatim>\<open>KeyError\<close>.
\<close>

definition missing_key :: pystr where
  "missing_key = [0xA] @ str_lit ''  '' @ [0x22] @ str_lit ''Questions'' @ [0x22]"

lemma prompt_template_format_raises:
  assumes "py_str cv = Inr cs"
  shows "py_format PROMPT_TEMPLATE [(str_lit ''count'', cv), (str_lit ''operation'', PyStr operation)]
    = Inl (KeyError missing_key)"
  using assms by (simp add: format_eval missing_key_def)

lemma prompt_template_format_count_raises:
  assumes "py_str cv = Inl e"
  shows "py_format PROMPT_TEMPLATE [(str_lit ''count'', cv), (str_lit ''operation'', PyStr operation)]
    = Inl e"
  using assms by (simp add: format_eval)

lemma fetch_raises:
  "fetch_questions_openai env operation count =
     Inl (if int_max_str_digits < length (nat_digits (nat \<bar>count\<bar>)) then ValueError
          else KeyError missing_key)"
proof (cases "py_str (PyInt count)")
  case (Inl e)
  then have "int_max_str_digits < length (nat_digits (nat \<bar>count\<bar>)) \<and> e = ValueError"
    by (auto simp: py_str_def split: if_splits)
  then show ?thesis
    unfolding fetch_questions_openai_def prompt_template_format_count_raises [OF Inl] by simp
next
  case (Inr cs)
  then have "\<not> int_max_str_digits < length (nat_digits (nat \<bar>count\<bar>))"
    by (auto simp: py_str_def split: if_splits)
  then show ?thesis
    unfolding fetch_questions_openai_def prompt_template_format_raises [OF Inr] by simp
qed

lemma generate_remote_raises:
  assumes "use_openai env"
  shows "generate_questions env per_op =
     Inl (if int_max_str_digits < length (nat_digits (nat \<bar>per_op\<bar>)) then ValueError
          else KeyError missing_key)"
  using assms by (simp add: generate_questions_def operations_def fetch_raises)

section \<open>Claims about the question sources\<close>











text \<open>
  Claim C2: when the request of the Remote Source fails, \<^verbatim>\<open>fetch_questions_openai\<close> returns
  the empty list and the run goes on. The code does not get that far. Take a service
  whose reply is not JSON, the failure that the \<^verbatim>\<open>try\<close> of lines 51 to 57 is there for:
  \<^verbatim>\<open>fetch_questions_openai("Addition", 5)\<close> raises \<^verbatim>\<open>KeyError\<close> at line 43, before the request
  is sent, and \<^verbatim>\<open>generate_questions(5)\<close> ends with that exception instead of an output.
\<close>

definition remote_env_example :: env where
  "remote_env_example =
     \<lparr>use_openai = True,
      chat_create = (\<lambda>prompt. Inr (Some (str_lit ''Sorry, I cannot help with that.''))),
      json_loads = (\<lambda>s. Inl ValueError),
      op_func = (\<lambda>op k. Inl (Raised ''not called''))\<rparr>"

theorem fetch_questions_openai_key_error:
  "fetch_questions_openai remote_env_example (str_lit ''Addition'') 5 = Inl (KeyError missing_key) \<and>
   generate_questions remote_env_example 5 = Inl (KeyError missing_key) \<and>
   missing_key = [0xA] @ str_lit ''  '' @ [0x22] @ str_lit ''Questions'' @ [0x22]"
proof -
  have d: "\<not> int_max_str_digits < length (nat_digits (nat \<bar>5\<bar>))"
    by (simp add: nat_digits.simps [of 5] int_max_str_digits_def)
  have u: "use_openai remote_env_example" by (simp add: remote_env_example_def)
  have "fetch_questions_openai remote_env_example (str_lit ''Addition'') 5
      = Inl (KeyError missing_key)"
    using d by (simp only: fetch_raises if_False)
  moreover have "generate_questions remote_env_example 5 = Inl (KeyError missing_key)"
    using d by (simp only: generate_remote_raises [OF u] if_False)
  ultimately show ?thesis by (simp add: missing_key_def)
qed

end
